theory Spec2Isabelle
  imports Complex_Main "HOL-Library.Log_Nat"
begin

section \<open>Colour analysis of metodos\_server.py: the \<open>ColorAnalyzer\<close> class\<close>

text \<open>
  The development embeds the three static methods of \<open>ColorAnalyzer\<close>
  (\<open>analyze_undertone\<close>, \<open>determine_season\<close>, \<open>generate_harmony_palette\<close>) and the
  functions of Python's standard library they call (\<open>dict.get\<close>, \<open>str.lstrip\<close>,
  \<open>int(s, 16)\<close>, \<open>colorsys.rgb_to_hls\<close>, \<open>colorsys.hls_to_rgb\<close>, float arithmetic,
  string formatting).

  Strings are lists of characters, a character being a code point below 256 (the
  non-ASCII letters of the season names are written by code point). A Python exception
  is a value of type \<open>py_error\<close>, and a function that can raise returns
  \<open>py_error + 'a\<close>.
\<close>

subsection \<open>Exceptions and dictionaries\<close>

datatype py_error = KeyError | ValueError | ZeroDivisionError

text \<open>A dictionary literal is the list of its items; \<open>d.get(k, default)\<close>.\<close>

definition dict_get :: "('k \<times> 'v) list \<Rightarrow> 'k \<Rightarrow> 'v \<Rightarrow> 'v" where
  "dict_get d k dflt = (case map_of d k of Some v \<Rightarrow> v | None \<Rightarrow> dflt)"

text \<open>\<open>d[k]\<close> raises \<open>KeyError\<close> on a missing key.\<close>

definition dict_index :: "('k \<times> 'v) list \<Rightarrow> 'k \<Rightarrow> py_error + 'v" where
  "dict_index d k = (case map_of d k of Some v \<Rightarrow> Inr v | None \<Rightarrow> Inl KeyError)"

subsection \<open>String helpers\<close>

text \<open>\<open>str.upper\<close> on the lower-case ASCII letters (the only ones the undertone names have).\<close>

definition upper_char :: "char \<Rightarrow> char" where
  "upper_char c = (let n = (of_char c :: nat)
                   in if 97 \<le> n \<and> n \<le> 122 then char_of (n - 32) else c)"

definition upper :: "string \<Rightarrow> string" where
  "upper s = map upper_char s"

definition digit_char :: "nat \<Rightarrow> char" where
  "digit_char d = char_of (48 + d)"

text \<open>The decimal digits of a natural number, most significant first; fuel bounds the
  number of digits and \<open>n + 1\<close> is always enough.\<close>

fun dec_digits :: "nat \<Rightarrow> nat \<Rightarrow> string" where
  "dec_digits 0 n = []"
| "dec_digits (Suc fuel) n =
     (if n < 10 then [digit_char n] else dec_digits fuel (n div 10) @ [digit_char (n mod 10)])"

definition str_nat :: "nat \<Rightarrow> string" where
  "str_nat n = dec_digits (Suc n) n"

text \<open>Round half to even, the rounding of IEEE arithmetic and of Python's formatting.\<close>

definition round_half_even :: "rat \<Rightarrow> int" where
  "round_half_even x =
     (let f = \<lfloor>x\<rfloor>; r = x - of_int f
      in if r < 1/2 then f else if 1/2 < r then f + 1 else if even f then f else f + 1)"

text \<open>\<open>f"{x:.1f}"\<close>: one digit after the point. The scores formatted here are multiples
  of one half, whose decimal expansion is exact, so that the rounding of the binary value
  to tenths is the rounding of the number itself.\<close>

definition format_1f :: "rat \<Rightarrow> string" where
  "format_1f x =
     (let t = nat (round_half_even (\<bar>x\<bar> * 10))
      in (if x < 0 then ''-'' else '''') @ str_nat (t div 10) @ ''.'' @ str_nat (t mod 10))"

subsection \<open>\<open>analyze_undertone\<close>\<close>

text \<open>
  The scores are Python ints and floats that are multiples of one half of absolute value
  at most 7; on these, float addition, multiplication by 20 and comparison are exact, so
  the score is modelled as a rational number.
\<close>

record undertone_analysis =
  undertone :: string
  score :: rat
  confidence :: rat
  analysis :: string

definition vein_scores :: "(string \<times> rat) list" where
  "vein_scores = [(''azul'', -2), (''azul_verdoso'', -1), (''purpura'', -1),
                  (''verde'', 2), (''verde_oliva'', 2), (''indefinido'', 0)]"

definition jewelry_scores :: "(string \<times> rat) list" where
  "jewelry_scores = [(''plata'', -3/2), (''oro'', 3/2), (''ambos'', 0)]"

definition sun_scores :: "(string \<times> rat) list" where
  "sun_scores = [(''se_quema'', -1), (''broncea_despacio'', -1/2), (''broncea_facil'', 1)]"

definition lip_scores :: "(string \<times> rat) list" where
  "lip_scores = [(''rosado'', -1/2), (''coral'', 0), (''durazno'', 1/2)]"

definition analyze_undertone :: "string \<Rightarrow> string \<Rightarrow> string \<Rightarrow> string \<Rightarrow> undertone_analysis" where
  "analyze_undertone vein_color jewelry_preference sun_reaction natural_lip_color =
     (let score0 = 0;
          score1 = score0 + dict_get vein_scores vein_color 0 * 2;
          score2 = score1 + dict_get jewelry_scores jewelry_preference 0;
          score3 = score2 + dict_get sun_scores sun_reaction 0;
          score4 = score3 + dict_get lip_scores natural_lip_color 0;
          ut = (if score4 \<le> -1 then ''frio''
                else if score4 \<ge> 1 then ''calido''
                else ''neutro'')
      in \<lparr> undertone = ut,
           score = score4,
           confidence = min (\<bar>score4\<bar> * 20) 100,
           analysis = [CHR ''P'', CHR ''u'', CHR ''n'', CHR ''t'', CHR ''u'', CHR ''a'', CHR ''c'',
                       CHR ''i'', CHR 0xF3, CHR ''n'', CHR '':'', CHR '' '']
                      @ format_1f score4 @ '' - '' @ upper ut \<rparr>)"

subsection \<open>The seasons and \<open>determine_season\<close>\<close>

record season_info =
  name :: string
  characteristics :: string
  temperature :: string
  saturation :: string
  contrast :: string
  best_colors :: "string list"
  avoid_colors :: "string list"

definition SEASONS :: "(string \<times> season_info) list" where
  "SEASONS = [
    (''primavera_calida'',
      \<lparr> name = ''Primavera C'' @ [CHR 0xE1] @ ''lida'',
        characteristics = ''Colores vibrantes, c'' @ [CHR 0xE1] @ ''lidos y claros'',
        temperature = ''calido'', saturation = ''alta'', contrast = ''medio'',
        best_colors = [''#FF6B35'', ''#F7931E'', ''#FFD700'', ''#32CD32'', ''#FF69B4'', ''#87CEEB''],
        avoid_colors = [''#000000'', ''#FFFFFF'', ''#4169E1'', ''#8B008B''] \<rparr>),
    (''primavera_clara'',
      \<lparr> name = ''Primavera Clara'',
        characteristics = ''Colores suaves, c'' @ [CHR 0xE1] @ ''lidos y luminosos'',
        temperature = ''calido'', saturation = ''media'', contrast = ''bajo'',
        best_colors = [''#FFB6C1'', ''#FFDAB9'', ''#F0E68C'', ''#98FB98'', ''#87CEFA'', ''#DDA0DD''],
        avoid_colors = [''#000000'', ''#8B0000'', ''#000080'', ''#4B0082''] \<rparr>),
    (''verano_suave'',
      \<lparr> name = ''Verano Suave'',
        characteristics = ''Colores apagados, frescos y suaves'',
        temperature = ''frio'', saturation = ''baja'', contrast = ''bajo'',
        best_colors = [''#B0C4DE'', ''#D8BFD8'', ''#F0F8FF'', ''#E6E6FA'', ''#FAFAFA'', ''#F5F5DC''],
        avoid_colors = [''#FF4500'', ''#FFD700'', ''#32CD32'', ''#FF1493''] \<rparr>),
    (''verano_frio'',
      \<lparr> name = ''Verano Fr'' @ [CHR 0xED] @ ''o'',
        characteristics = ''Colores frescos, suaves con base azul'',
        temperature = ''frio'', saturation = ''media'', contrast = ''medio'',
        best_colors = [''#4169E1'', ''#9370DB'', ''#FF69B4'', ''#20B2AA'', ''#BA55D3'', ''#7B68EE''],
        avoid_colors = [''#FF8C00'', ''#FF6347'', ''#DAA520'', ''#CD853F''] \<rparr>),
    (''otono_suave'',
      \<lparr> name = ''Oto'' @ [CHR 0xF1] @ ''o Suave'',
        characteristics = ''Colores terrosos, c'' @ [CHR 0xE1] @ ''lidos y apagados'',
        temperature = ''calido'', saturation = ''baja'', contrast = ''bajo'',
        best_colors = [''#D2B48C'', ''#DEB887'', ''#F4A460'', ''#CD853F'', ''#BC8F8F'', ''#A0522D''],
        avoid_colors = [''#FF1493'', ''#00BFFF'', ''#7FFF00'', ''#FF00FF''] \<rparr>),
    (''otono_profundo'',
      \<lparr> name = ''Oto'' @ [CHR 0xF1] @ ''o Profundo'',
        characteristics = ''Colores ricos, c'' @ [CHR 0xE1] @ ''lidos y saturados'',
        temperature = ''calido'', saturation = ''alta'', contrast = ''alto'',
        best_colors = [''#8B4513'', ''#A0522D'', ''#CD853F'', ''#DAA520'', ''#B22222'', ''#800080''],
        avoid_colors = [''#E0E0E0'', ''#F0F8FF'', ''#87CEEB'', ''#FFB6C1''] \<rparr>),
    (''invierno_profundo'',
      \<lparr> name = ''Invierno Profundo'',
        characteristics = ''Colores intensos, fr'' @ [CHR 0xED] @ ''os y dram'' @ [CHR 0xE1] @ ''ticos'',
        temperature = ''frio'', saturation = ''alta'', contrast = ''muy_alto'',
        best_colors = [''#000000'', ''#FFFFFF'', ''#FF0000'', ''#0000FF'', ''#FF1493'', ''#8A2BE2''],
        avoid_colors = [''#F5DEB3'', ''#FFDAB9'', ''#FFE4B5'', ''#F0E68C''] \<rparr>),
    (''invierno_brillante'',
      \<lparr> name = ''Invierno Brillante'',
        characteristics = ''Colores vibrantes, fr'' @ [CHR 0xED] @ ''os y claros'',
        temperature = ''frio'', saturation = ''muy_alta'', contrast = ''alto'',
        best_colors = [''#FF1493'', ''#00BFFF'', ''#7FFF00'', ''#FF00FF'', ''#00FF00'', ''#FFFF00''],
        avoid_colors = [''#696969'', ''#A9A9A9'', ''#D2B48C'', ''#DEB887''] \<rparr>)]"

definition season_matrix :: "((string \<times> string \<times> string) \<times> string) list" where
  "season_matrix = [
    ((''clara'', ''calido'', ''bajo''), ''primavera_clara''),
    ((''clara'', ''calido'', ''medio''), ''primavera_calida''),
    ((''clara'', ''calido'', ''alto''), ''primavera_calida''),
    ((''clara'', ''frio'', ''bajo''), ''verano_suave''),
    ((''clara'', ''frio'', ''medio''), ''verano_frio''),
    ((''clara'', ''frio'', ''alto''), ''invierno_brillante''),
    ((''clara'', ''neutro'', ''bajo''), ''verano_suave''),
    ((''clara'', ''neutro'', ''medio''), ''verano_frio''),
    ((''clara'', ''neutro'', ''alto''), ''invierno_brillante''),
    ((''media'', ''calido'', ''bajo''), ''otono_suave''),
    ((''media'', ''calido'', ''medio''), ''primavera_calida''),
    ((''media'', ''calido'', ''alto''), ''otono_profundo''),
    ((''media'', ''frio'', ''bajo''), ''verano_suave''),
    ((''media'', ''frio'', ''medio''), ''verano_frio''),
    ((''media'', ''frio'', ''alto''), ''invierno_profundo''),
    ((''media'', ''neutro'', ''bajo''), ''otono_suave''),
    ((''media'', ''neutro'', ''medio''), ''verano_frio''),
    ((''media'', ''neutro'', ''alto''), ''invierno_profundo''),
    ((''oscura'', ''calido'', ''bajo''), ''otono_suave''),
    ((''oscura'', ''calido'', ''medio''), ''otono_profundo''),
    ((''oscura'', ''calido'', ''alto''), ''otono_profundo''),
    ((''oscura'', ''frio'', ''bajo''), ''invierno_profundo''),
    ((''oscura'', ''frio'', ''medio''), ''invierno_profundo''),
    ((''oscura'', ''frio'', ''alto''), ''invierno_profundo''),
    ((''oscura'', ''neutro'', ''bajo''), ''invierno_profundo''),
    ((''oscura'', ''neutro'', ''medio''), ''invierno_profundo''),
    ((''oscura'', ''neutro'', ''alto''), ''invierno_profundo'')]"

text \<open>The keys are (hair colour, eye colour).\<close>

definition contrast_adjustments :: "((string \<times> string) \<times> string) list" where
  "contrast_adjustments = [
    ((''negro'', ''azul''), ''alto''),
    ((''negro'', ''verde''), ''alto''),
    ((''rubio'', ''cafe''), ''medio''),
    ((''rubio'', ''azul''), ''bajo''),
    ((''castano'', ''verde''), ''medio''),
    ((''pelirrojo'', ''verde''), ''alto'')]"

record season_analysis =
  season :: string
  season_info :: season_info
  sa_confidence :: nat
  reasoning :: string

definition determine_season ::
  "string \<Rightarrow> string \<Rightarrow> string \<Rightarrow> string \<Rightarrow> string \<Rightarrow> py_error + season_analysis" where
  "determine_season skin_tone ut eye_color hair_color contrast_level =
     (let adjusted_contrast = dict_get contrast_adjustments (hair_color, eye_color) contrast_level;
          season_key = (skin_tone, ut, adjusted_contrast);
          sn = dict_get season_matrix season_key ''verano_suave''
      in case dict_index SEASONS sn of
           Inl e \<Rightarrow> Inl e
         | Inr info \<Rightarrow>
             Inr \<lparr> season = sn,
                   season_info = info,
                   sa_confidence = 85,
                   reasoning = ''Piel '' @ skin_tone @ '' + subtono '' @ ut
                                @ '' + contraste '' @ adjusted_contrast @ '' = '' @ name info \<rparr>)"

text \<open>The identifiers of the eight seasons, in the order of \<open>SEASONS\<close>.\<close>

definition season_ids :: "string list" where
  "season_ids = [''primavera_calida'', ''primavera_clara'', ''verano_suave'', ''verano_frio'',
     ''otono_suave'', ''otono_profundo'', ''invierno_profundo'', ''invierno_brillante'']"

subsection \<open>Python floats\<close>

text \<open>
  A finite IEEE 754 double is a rational number \<open>m * 2^e\<close> with \<open>\<bar>m\<bar> < 2^53\<close>. A Python
  float is modelled by the rational it denotes, and every float operation rounds the exact
  result to 53 significant bits, ties to even (\<open>fl\<close>). The colour computations stay
  between \<open>2^-70\<close> and \<open>2^10\<close> in magnitude, far from overflow and from the subnormal
  range, so the exponent is left unbounded; the sign of a zero is not modelled (no
  operation below distinguishes \<open>-0.0\<close> from \<open>0.0\<close>).
\<close>

text \<open>\<open>ilog2 x\<close> is the exponent \<open>e\<close> with \<open>2^e \<le> x < 2^(e+1)\<close>, for positive \<open>x\<close>.\<close>

definition ilog2 :: "rat \<Rightarrow> int" where
  "ilog2 x = (if 1 \<le> x then bitlen \<lfloor>x\<rfloor> - 1 else - bitlen (\<lceil>1 / x\<rceil> - 1))"

definition fl :: "rat \<Rightarrow> rat" where
  "fl x = (if x = 0 then 0
           else let u = 2 powi (ilog2 \<bar>x\<bar> - 52)
                in sgn x * of_int (round_half_even (\<bar>x\<bar> / u)) * u)"

definition fadd :: "rat \<Rightarrow> rat \<Rightarrow> rat" where
  "fadd x y = fl (x + y)"

definition fsub :: "rat \<Rightarrow> rat \<Rightarrow> rat" where
  "fsub x y = fl (x - y)"

definition fmul :: "rat \<Rightarrow> rat \<Rightarrow> rat" where
  "fmul x y = fl (x * y)"

definition fdiv :: "rat \<Rightarrow> rat \<Rightarrow> py_error + rat" where
  "fdiv x y = (if y = 0 then Inl ZeroDivisionError else Inr (fl (x / y)))"

text \<open>\<open>int(x)\<close> of a float truncates towards zero.\<close>

definition py_trunc :: "rat \<Rightarrow> int" where
  "py_trunc x = (if 0 \<le> x then \<lfloor>x\<rfloor> else \<lceil>x\<rceil>)"

text \<open>
  \<open>x % 1.0\<close>: C's \<open>fmod\<close> is exact and has the sign of \<open>x\<close>; Python adds the divisor
  (a rounded addition) when the remainder is negative.
\<close>

definition fmod1 :: "rat \<Rightarrow> rat" where
  "fmod1 x = (let m = x - of_int (py_trunc x) in if m < 0 then fl (m + 1) else m)"

subsection \<open>The module \<open>colorsys\<close> of the standard library\<close>

definition ONE_THIRD :: rat where
  "ONE_THIRD = fl (1 / 3)"

definition ONE_SIXTH :: rat where
  "ONE_SIXTH = fl (1 / 6)"

definition TWO_THIRD :: rat where
  "TWO_THIRD = fl (2 / 3)"

definition rgb_to_hls :: "rat \<Rightarrow> rat \<Rightarrow> rat \<Rightarrow> py_error + (rat \<times> rat \<times> rat)" where
  "rgb_to_hls r g b =
     (let maxc = max (max r g) b;
          minc = min (min r g) b;
          sumc = fadd maxc minc;
          rangec = fsub maxc minc;
          l = fl (sumc / 2)
      in if minc = maxc then Inr (0, l, 0)
         else
           (case (if l \<le> 1/2 then fdiv rangec sumc
                  else fdiv rangec (fsub (fsub 2 maxc) minc)) of
              Inl e \<Rightarrow> Inl e
            | Inr s \<Rightarrow>
           (case fdiv (fsub maxc r) rangec of Inl e \<Rightarrow> Inl e | Inr rc \<Rightarrow>
           (case fdiv (fsub maxc g) rangec of Inl e \<Rightarrow> Inl e | Inr gc \<Rightarrow>
           (case fdiv (fsub maxc b) rangec of Inl e \<Rightarrow> Inl e | Inr bc \<Rightarrow>
              (let h = (if r = maxc then fsub bc gc
                        else if g = maxc then fsub (fadd 2 rc) bc
                        else fsub (fadd 4 gc) rc)
               in Inr (fmod1 (fl (h / 6)), l, s)))))))"

text \<open>The helper \<open>_v\<close> of \<open>colorsys\<close>.\<close>

definition v_hls :: "rat \<Rightarrow> rat \<Rightarrow> rat \<Rightarrow> rat" where
  "v_hls m1 m2 hue0 =
     (let hue = fmod1 hue0
      in if hue < ONE_SIXTH then fadd m1 (fmul (fmul (fsub m2 m1) hue) 6)
         else if hue < 1/2 then m2
         else if hue < TWO_THIRD then fadd m1 (fmul (fmul (fsub m2 m1) (fsub TWO_THIRD hue)) 6)
         else m1)"

definition hls_to_rgb :: "rat \<Rightarrow> rat \<Rightarrow> rat \<Rightarrow> rat \<times> rat \<times> rat" where
  "hls_to_rgb h l s =
     (if s = 0 then (l, l, l)
      else let m2 = (if l \<le> 1/2 then fmul l (fadd 1 s) else fsub (fadd l s) (fmul l s));
               m1 = fsub (fmul 2 l) m2
           in (v_hls m1 m2 (fadd h ONE_THIRD), v_hls m1 m2 h, v_hls m1 m2 (fsub h ONE_THIRD)))"

subsection \<open>Parsing and formatting hexadecimal\<close>

text \<open>
  \<open>int(s, 16)\<close> on the slices \<open>s[i:i+2]\<close>, strings of at most two characters: white
  space is stripped at both ends (the code points 9 to 13, 32, 133 and 160 are the white
  space below 256), one sign is accepted, and what remains must be one or two hexadecimal
  digits. The prefix \<open>0x\<close> and the separator \<open>_\<close> need at least three characters to
  form a literal, so \<open>py_int16\<close> is \<open>int(s, 16)\<close> only on strings of at most two
  characters. It is \<open>int(s, 16)\<close> on the strings of this development, whose characters
  are the code points below 256. On a Python string with other code points \<open>int\<close>
  also reads the decimal digits and the white space of the other scripts of Unicode;
  no string here contains one, and nothing below speaks of such strings.
\<close>

definition is_space16 :: "char \<Rightarrow> bool" where
  "is_space16 c = (of_char c \<in> {9, 10, 11, 12, 13, 32, 133, 160 :: nat})"

definition hex_value :: "char \<Rightarrow> nat option" where
  "hex_value c =
     (let n = (of_char c :: nat)
      in if 48 \<le> n \<and> n \<le> 57 then Some (n - 48)
         else if 65 \<le> n \<and> n \<le> 70 then Some (n - 55)
         else if 97 \<le> n \<and> n \<le> 102 then Some (n - 87)
         else None)"

fun hex_digits_value :: "nat \<Rightarrow> string \<Rightarrow> nat option" where
  "hex_digits_value acc [] = Some acc"
| "hex_digits_value acc (c # cs) =
     (case hex_value c of None \<Rightarrow> None | Some d \<Rightarrow> hex_digits_value (16 * acc + d) cs)"

definition strip :: "string \<Rightarrow> string" where
  "strip s = rev (dropWhile is_space16 (rev (dropWhile is_space16 s)))"

definition py_int16 :: "string \<Rightarrow> py_error + int" where
  "py_int16 s =
     (let t = strip s;
          (neg, ds) = (case t of
                         c # cs \<Rightarrow> if c = CHR ''-'' then (True, cs)
                                   else if c = CHR ''+'' then (False, cs) else (False, t)
                       | [] \<Rightarrow> (False, []))
      in if ds = [] then Inl ValueError
         else (case hex_digits_value 0 ds of
                 None \<Rightarrow> Inl ValueError
               | Some n \<Rightarrow> Inr (if neg then - int n else int n)))"

text \<open>\<open>s.lstrip('#')\<close> removes every leading \<open>#\<close>; \<open>s[i:i+2]\<close> never raises.\<close>

definition lstrip_hash :: "string \<Rightarrow> string" where
  "lstrip_hash s = dropWhile (\<lambda>c. c = CHR ''#'') s"

definition slice2 :: "string \<Rightarrow> nat \<Rightarrow> string" where
  "slice2 s i = take 2 (drop i s)"

definition hex_char :: "nat \<Rightarrow> char" where
  "hex_char d = ''0123456789abcdef'' ! d"

fun hex_digits :: "nat \<Rightarrow> string" where
  "hex_digits n = (if n < 16 then [hex_char n] else hex_digits (n div 16) @ [hex_char (n mod 16)])"

declare hex_digits.simps [simp del]

text \<open>\<open>f"{n:02x}"\<close>: lower-case digits, padded with zeros to two characters; a negative
  number keeps its sign, which already gives two characters.\<close>

definition format_02x :: "int \<Rightarrow> string" where
  "format_02x n =
     (if n < 0 then CHR ''-'' # hex_digits (nat (- n))
      else let ds = hex_digits (nat n) in if length ds < 2 then CHR ''0'' # ds else ds)"

subsection \<open>\<open>generate_harmony_palette\<close>\<close>

text \<open>The two local functions. \<open>hsl_to_hex\<close> takes hue, lightness, saturation in this
  order, the order in which \<open>hex_to_hsl\<close> returns them.\<close>

definition hex_to_hsl :: "string \<Rightarrow> py_error + (rat \<times> rat \<times> rat)" where
  "hex_to_hsl hex_color0 =
     (let hex_color = lstrip_hash hex_color0
      in (case py_int16 (slice2 hex_color 0) of Inl e \<Rightarrow> Inl e | Inr ri \<Rightarrow>
         (case py_int16 (slice2 hex_color 2) of Inl e \<Rightarrow> Inl e | Inr gi \<Rightarrow>
         (case py_int16 (slice2 hex_color 4) of Inl e \<Rightarrow> Inl e | Inr bi \<Rightarrow>
            rgb_to_hls (fl (rat_of_int ri / 255)) (fl (rat_of_int gi / 255))
                       (fl (rat_of_int bi / 255))))))"

definition hsl_to_hex :: "rat \<Rightarrow> rat \<Rightarrow> rat \<Rightarrow> string" where
  "hsl_to_hex h l s =
     (case hls_to_rgb h l s of (r, g, b) \<Rightarrow>
        CHR ''#'' # format_02x (py_trunc (fmul r 255)) @ format_02x (py_trunc (fmul g 255))
                 @ format_02x (py_trunc (fmul b 255)))"

text \<open>The integer that \<open>hex_to_hsl\<close> reads at offset \<open>i\<close> of a colour,
  \<open>int(hex_color[i:i+2], 16)\<close> after \<open>hex_color.lstrip('#')\<close>: the red, green and blue
  channels are those at the offsets 0, 2 and 4.\<close>

definition channel :: "string \<Rightarrow> nat \<Rightarrow> py_error + int" where
  "channel hex_color i = py_int16 (slice2 (lstrip_hash hex_color) i)"

text \<open>The scheme step: the list \<open>harmonies\<close> built by the \<open>if\<close>/\<open>elif\<close> chain, which
  has no \<open>else\<close> branch. The literals \<open>0.083\<close>, \<open>0.333\<close> and \<open>0.667\<close> are the doubles
  nearest to these decimals.\<close>

definition harmonies :: "string \<Rightarrow> string \<Rightarrow> rat \<Rightarrow> rat \<Rightarrow> rat \<Rightarrow> string list" where
  "harmonies harmony_type base_hex h l s =
     (if harmony_type = ''complementary'' then
        (let comp_h = fmod1 (fadd h (1/2)) in [base_hex, hsl_to_hex comp_h l s])
      else if harmony_type = ''analogous'' then
        [base_hex, hsl_to_hex (fmod1 (fadd h (fl (83/1000)))) l s,
                   hsl_to_hex (fmod1 (fsub h (fl (83/1000)))) l s]
      else if harmony_type = ''triadic'' then
        [base_hex, hsl_to_hex (fmod1 (fadd h (fl (333/1000)))) l s,
                   hsl_to_hex (fmod1 (fadd h (fl (667/1000)))) l s]
      else if harmony_type = ''split_complementary'' then
        (let comp_h = fmod1 (fadd h (1/2))
         in [base_hex, hsl_to_hex (fmod1 (fadd comp_h (fl (83/1000)))) l s,
                       hsl_to_hex (fmod1 (fsub comp_h (fl (83/1000)))) l s])
      else [])"

text \<open>The loop over \<open>harmonies\<close>: each colour is parsed again and contributes itself, a
  lighter and a darker variant.\<close>

fun variations :: "string list \<Rightarrow> py_error + string list" where
  "variations [] = Inr []"
| "variations (color # rest) =
     (case hex_to_hsl color of
        Inl e \<Rightarrow> Inl e
      | Inr (h, l, s) \<Rightarrow>
          (case variations rest of
             Inl e \<Rightarrow> Inl e
           | Inr vs \<Rightarrow>
               Inr ([color, hsl_to_hex h (min (fadd l (fl (1/5))) 1) s,
                            hsl_to_hex h (max (fsub l (fl (1/5))) 0) s] @ vs)))"

text \<open>
  \<open>list(set(variations))\<close> removes duplicates and leaves the order to the hash values of
  the strings; \<open>remdups\<close> is one such list, and the properties below speak of its
  elements only.
\<close>

definition generate_harmony_palette :: "string list \<Rightarrow> string \<Rightarrow> py_error + string list" where
  "generate_harmony_palette base_colors harmony_type =
     (case base_colors of
        [] \<Rightarrow> Inr []
      | base_hex # _ \<Rightarrow>
          (case hex_to_hsl base_hex of
             Inl e \<Rightarrow> Inl e
           | Inr (h, l, s) \<Rightarrow>
               (case variations (harmonies harmony_type base_hex h l s) of
                  Inl e \<Rightarrow> Inl e
                | Inr vs \<Rightarrow> Inr (remdups vs))))"

subsection \<open>The colours of the specification\<close>

text \<open>A well-formed colour: six hexadecimal digits after an optional leading \<open>#\<close>.\<close>

definition is_hex_digit :: "char \<Rightarrow> bool" where
  "is_hex_digit c = (hex_value c \<noteq> None)"

definition well_formed_hex :: "string \<Rightarrow> bool" where
  "well_formed_hex s =
     (let t = (case s of [] \<Rightarrow> [] | c # cs \<Rightarrow> if c = CHR ''#'' then cs else s)
      in length t = 6 \<and> list_all is_hex_digit t)"

subsection \<open>The wording of the specification\<close>

text \<open>
  Three statements of the specification are written out as functions, to be compared with
  the code: the three variants it asks for each colour (the colour, one lighter by 0.2 and
  clamped to 1, one darker by 0.2 and clamped to 0), and the hue offsets it lists for the
  four schemes, where it writes 0.0833 for thirty degrees.
\<close>

definition lighten_spec :: "rat \<Rightarrow> rat \<Rightarrow> rat \<Rightarrow> string" where
  "lighten_spec h l s = hsl_to_hex h (min (fadd l (fl (1/5))) 1) s"

definition darken_spec :: "rat \<Rightarrow> rat \<Rightarrow> rat \<Rightarrow> string" where
  "darken_spec h l s = hsl_to_hex h (max (fsub l (fl (1/5))) 0) s"

definition variants_spec :: "string \<Rightarrow> string list" where
  "variants_spec c =
     (case hex_to_hsl c of
        Inl e \<Rightarrow> []
      | Inr (h, l, s) \<Rightarrow> [c, lighten_spec h l s, darken_spec h l s])"

definition harmonies_spec :: "string \<Rightarrow> string \<Rightarrow> rat \<Rightarrow> rat \<Rightarrow> rat \<Rightarrow> string list" where
  "harmonies_spec scheme base h l s =
     (if scheme = ''complementary'' then
        [base, hsl_to_hex (fmod1 (fadd h (1/2))) l s]
      else if scheme = ''analogous'' then
        [base, hsl_to_hex (fmod1 (fadd h (fl (833/10000)))) l s,
               hsl_to_hex (fmod1 (fsub h (fl (833/10000)))) l s]
      else if scheme = ''triadic'' then
        [base, hsl_to_hex (fmod1 (fadd h (fl (333/1000)))) l s,
               hsl_to_hex (fmod1 (fadd h (fl (667/1000)))) l s]
      else if scheme = ''split_complementary'' then
        [base, hsl_to_hex (fmod1 (fadd (fmod1 (fadd h (1/2))) (fl (833/10000)))) l s,
               hsl_to_hex (fmod1 (fsub (fmod1 (fadd h (1/2))) (fl (833/10000)))) l s]
      else [])"

section \<open>Properties\<close>

subsection \<open>Dictionary lookups\<close>

lemma vein_lookup: "dict_get vein_scores v 0 =
   (if v = ''azul'' then -2 else if v = ''azul_verdoso'' then -1 else if v = ''purpura'' then -1
    else if v = ''verde'' then 2 else if v = ''verde_oliva'' then 2 else 0)"
  by (simp add: dict_get_def vein_scores_def)

lemma jewelry_lookup: "dict_get jewelry_scores j 0 =
   (if j = ''plata'' then -3/2 else if j = ''oro'' then 3/2 else 0)"
  by (simp add: dict_get_def jewelry_scores_def)

lemma sun_lookup: "dict_get sun_scores s 0 =
   (if s = ''se_quema'' then -1 else if s = ''broncea_despacio'' then -1/2
    else if s = ''broncea_facil'' then 1 else 0)"
  by (simp add: dict_get_def sun_scores_def)

lemma lip_lookup: "dict_get lip_scores p 0 =
   (if p = ''rosado'' then -1/2 else if p = ''durazno'' then 1/2 else 0)"
  by (simp add: dict_get_def lip_scores_def)

lemma score_eq: "score (analyze_undertone v j s p) =
   dict_get vein_scores v 0 * 2 + dict_get jewelry_scores j 0
   + dict_get sun_scores s 0 + dict_get lip_scores p 0"
  by (simp add: analyze_undertone_def Let_def)

lemma undertone_eq: "undertone (analyze_undertone v j s p) =
    (if score (analyze_undertone v j s p) \<le> -1 then ''frio''
     else if 1 \<le> score (analyze_undertone v j s p) then ''calido'' else ''neutro'')"
  by (simp add: analyze_undertone_def Let_def)

subsection \<open>The undertone score\<close>

text \<open>
  Claim C1. For every four strings, the score of \<open>analyze_undertone\<close> is the sum of
  twice the vein term (azul -2, azul\_verdoso -1, purpura -1, verde +2, verde\_oliva +2,
  indefinido and anything else 0), the jewelry term (plata -1.5, oro +1.5, ambos and
  anything else 0), the sun term (se\_quema -1, broncea\_despacio -0.5, broncea\_facil +1,
  anything else 0) and the lip term (rosado -0.5, durazno +0.5, coral and anything else
  0); the function is total, and the undertone is frio when the score is at most -1,
  calido when it is at least 1, neutro otherwise.
\<close>

theorem analyze_undertone_score_category:
  "score (analyze_undertone v j s p) =
     2 * (if v = ''azul'' then -2 else if v = ''azul_verdoso'' then -1 else if v = ''purpura'' then -1
          else if v = ''verde'' then 2 else if v = ''verde_oliva'' then 2 else 0)
     + (if j = ''plata'' then -3/2 else if j = ''oro'' then 3/2 else 0)
     + (if s = ''se_quema'' then -1 else if s = ''broncea_despacio'' then -1/2
        else if s = ''broncea_facil'' then 1 else 0)
     + (if p = ''rosado'' then -1/2 else if p = ''durazno'' then 1/2 else 0)
   \<and> undertone (analyze_undertone v j s p) =
       (if score (analyze_undertone v j s p) \<le> -1 then ''frio''
        else if 1 \<le> score (analyze_undertone v j s p) then ''calido'' else ''neutro'')"
  unfolding score_eq vein_lookup jewelry_lookup sun_lookup lip_lookup
  using undertone_eq[of v j s p, unfolded score_eq vein_lookup jewelry_lookup sun_lookup lip_lookup]
  by (simp only: mult.commute)

text \<open>The boundaries: a score of exactly -1 is frio, exactly +1 is calido, 0 is neutro.\<close>

theorem analyze_undertone_score_category_witness:
  "score (analyze_undertone ''indefinido'' ''ambos'' ''se_quema'' ''coral'') = -1
   \<and> undertone (analyze_undertone ''indefinido'' ''ambos'' ''se_quema'' ''coral'') = ''frio''
   \<and> score (analyze_undertone ''indefinido'' ''ambos'' ''broncea_facil'' ''coral'') = 1
   \<and> undertone (analyze_undertone ''indefinido'' ''ambos'' ''broncea_facil'' ''coral'') = ''calido''
   \<and> score (analyze_undertone ''indefinido'' ''ambos'' ''no_se'' ''coral'') = 0
   \<and> undertone (analyze_undertone ''indefinido'' ''ambos'' ''no_se'' ''coral'') = ''neutro''"
  using analyze_undertone_score_category[of "''indefinido''" "''ambos''" "''se_quema''" "''coral''"]
        analyze_undertone_score_category[of "''indefinido''" "''ambos''" "''broncea_facil''" "''coral''"]
        analyze_undertone_score_category[of "''indefinido''" "''ambos''" "''no_se''" "''coral''"]
  by simp

subsection \<open>The season table\<close>

lemma dict_get_range: "dict_get d k dflt \<in> insert dflt (snd ` set d)"
  by (auto simp: dict_get_def split: option.splits dest!: map_of_SomeD intro: rev_image_eqI)

lemma SEASONS_keys: "map fst SEASONS = season_ids"
  by (simp add: SEASONS_def season_ids_def)

lemma season_matrix_values: "snd ` set season_matrix \<subseteq> set season_ids"
  by (simp add: season_matrix_def season_ids_def)


lemma season_matrix_distinct: "distinct (map fst season_matrix)"
  by code_simp


lemma dict_index_present:
  assumes "k \<in> set (map fst d)"
  shows "\<exists>v. dict_index d k = Inr v"
proof -
  from assms have "map_of d k \<noteq> None" by (simp add: map_of_eq_None_iff)
  then show ?thesis by (auto simp: dict_index_def)
qed

lemma dict_get_in:
  assumes "dflt \<in> A" and "snd ` set d \<subseteq> A"
  shows "dict_get d k dflt \<in> A"
  using dict_get_range[of d k dflt] assms by auto

lemma dict_index_SEASONS:
  assumes "sn \<in> set season_ids"
  shows "\<exists>info. dict_index SEASONS sn = Inr info"
  by (rule dict_index_present) (simp only: SEASONS_keys assms)

lemma season_choice_in_ids:
  "dict_get season_matrix key ''verano_suave'' \<in> set season_ids"
  by (rule dict_get_in[OF _ season_matrix_values]) (simp add: season_ids_def)

lemma determine_season_returns:
  "\<exists>info. dict_index SEASONS (dict_get season_matrix (sk, ut, dict_get contrast_adjustments (hair, eye) cl) ''verano_suave'') = Inr info \<and>
     determine_season sk ut eye hair cl =
       Inr \<lparr> season = dict_get season_matrix (sk, ut, dict_get contrast_adjustments (hair, eye) cl) ''verano_suave'',
             season_info = info, sa_confidence = 85,
             reasoning = ''Piel '' @ sk @ '' + subtono '' @ ut @ '' + contraste ''
                @ dict_get contrast_adjustments (hair, eye) cl @ '' = '' @ name info \<rparr>"
proof -
  obtain info where "dict_index SEASONS (dict_get season_matrix (sk, ut, dict_get contrast_adjustments (hair, eye) cl) ''verano_suave'') = Inr info"
    using dict_index_SEASONS[OF season_choice_in_ids] by blast
  then show ?thesis by (simp add: determine_season_def Let_def)
qed

lemma dict_get_hit:
  assumes "distinct (map fst d)" and "(k, v) \<in> set d"
  shows "dict_get d k dflt = v"
proof -
  from assms have "map_of d k = Some v" by simp
  then show ?thesis by (simp add: dict_get_def)
qed


lemma contrast_lookup:
  "dict_get contrast_adjustments (hair, eye) cl =
     (if (hair, eye) = (''negro'', ''azul'') then ''alto''
      else if (hair, eye) = (''negro'', ''verde'') then ''alto''
      else if (hair, eye) = (''rubio'', ''cafe'') then ''medio''
      else if (hair, eye) = (''rubio'', ''azul'') then ''bajo''
      else if (hair, eye) = (''castano'', ''verde'') then ''medio''
      else if (hair, eye) = (''pelirrojo'', ''verde'') then ''alto''
      else cl)"
  by (simp add: dict_get_def contrast_adjustments_def)

lemma determine_season_obtain:
  obtains r where "determine_season sk ut eye hair cl = Inr r"
    and "season r = dict_get season_matrix (sk, ut, dict_get contrast_adjustments (hair, eye) cl) ''verano_suave''"
    and "map_of SEASONS (season r) = Some (season_info r)"
    and "season r \<in> set season_ids"
    and "reasoning r = ''Piel '' @ sk @ '' + subtono '' @ ut @ '' + contraste ''
                @ dict_get contrast_adjustments (hair, eye) cl @ '' = '' @ name (season_info r)"
proof -
  let ?key = "(sk, ut, dict_get contrast_adjustments (hair, eye) cl)"
  let ?sn = "dict_get season_matrix ?key ''verano_suave''"
  obtain info where i: "dict_index SEASONS ?sn = Inr info"
    and d: "determine_season sk ut eye hair cl =
       Inr \<lparr> season = ?sn, season_info = info, sa_confidence = 85,
             reasoning = ''Piel '' @ sk @ '' + subtono '' @ ut @ '' + contraste ''
                @ dict_get contrast_adjustments (hair, eye) cl @ '' = '' @ name info \<rparr>"
    using determine_season_returns by blast
  have m: "map_of SEASONS ?sn = Some info"
    using i by (auto simp: dict_index_def split: option.splits)
  show thesis
    by (rule that[OF d]) (simp_all add: m season_choice_in_ids)
qed



lemma e2e_undertone:
  "score (analyze_undertone ''verde'' ''oro'' ''broncea_facil'' ''durazno'') = 7"
  "undertone (analyze_undertone ''verde'' ''oro'' ''broncea_facil'' ''durazno'') = ''calido''"
  by (simp_all add: undertone_eq score_eq vein_lookup jewelry_lookup sun_lookup lip_lookup)

subsection \<open>The contrast adjustment and the end-to-end profile\<close>

text \<open>
  Claim C7. \<open>determine_season\<close> looks the season up with the contrast of the override
  table when (hair colour, eye colour) is one of its six keys, and with the caller's
  contrast level for every other pair. For the profile (clara, verde, oro,
  broncea\_facil, durazno, azul, rubio, bajo) the undertone score is 7, the undertone is
  calido and the season is primavera\_clara.
\<close>

theorem determine_season_contrast_override:
  "(\<exists>r. determine_season sk ut eye hair cl = Inr r
      \<and> season r =
          dict_get season_matrix
            (sk, ut,
             if (hair, eye) = (''negro'', ''azul'') then ''alto''
             else if (hair, eye) = (''negro'', ''verde'') then ''alto''
             else if (hair, eye) = (''rubio'', ''cafe'') then ''medio''
             else if (hair, eye) = (''rubio'', ''azul'') then ''bajo''
             else if (hair, eye) = (''castano'', ''verde'') then ''medio''
             else if (hair, eye) = (''pelirrojo'', ''verde'') then ''alto''
             else cl)
            ''verano_suave'')
   \<and> score (analyze_undertone ''verde'' ''oro'' ''broncea_facil'' ''durazno'') = 7
   \<and> undertone (analyze_undertone ''verde'' ''oro'' ''broncea_facil'' ''durazno'') = ''calido''
   \<and> (\<exists>r. determine_season ''clara''
              (undertone (analyze_undertone ''verde'' ''oro'' ''broncea_facil'' ''durazno''))
              ''azul'' ''rubio'' ''bajo'' = Inr r
         \<and> season r = ''primavera_clara'')"
proof (intro conjI)
  obtain r where d: "determine_season sk ut eye hair cl = Inr r"
    and s: "season r = dict_get season_matrix (sk, ut, dict_get contrast_adjustments (hair, eye) cl) ''verano_suave''"
    by (rule determine_season_obtain)
  show "\<exists>r. determine_season sk ut eye hair cl = Inr r
      \<and> season r =
          dict_get season_matrix
            (sk, ut,
             if (hair, eye) = (''negro'', ''azul'') then ''alto''
             else if (hair, eye) = (''negro'', ''verde'') then ''alto''
             else if (hair, eye) = (''rubio'', ''cafe'') then ''medio''
             else if (hair, eye) = (''rubio'', ''azul'') then ''bajo''
             else if (hair, eye) = (''castano'', ''verde'') then ''medio''
             else if (hair, eye) = (''pelirrojo'', ''verde'') then ''alto''
             else cl)
            ''verano_suave''"
    using d s unfolding contrast_lookup by (intro exI[of _ r] conjI)
  show "score (analyze_undertone ''verde'' ''oro'' ''broncea_facil'' ''durazno'') = 7"
    by (rule e2e_undertone)
  show "undertone (analyze_undertone ''verde'' ''oro'' ''broncea_facil'' ''durazno'') = ''calido''"
    by (rule e2e_undertone)
  obtain r' where d': "determine_season ''clara'' ''calido'' ''azul'' ''rubio'' ''bajo'' = Inr r'"
    and s': "season r' = dict_get season_matrix (''clara'', ''calido'', dict_get contrast_adjustments (''rubio'', ''azul'') ''bajo'') ''verano_suave''"
    by (rule determine_season_obtain)
  have k: "dict_get contrast_adjustments (''rubio'', ''azul'') ''bajo'' = ''bajo''"
    by (simp add: contrast_lookup)
  have m: "((''clara'', ''calido'', ''bajo''), ''primavera_clara'') \<in> set season_matrix"
    by (simp add: season_matrix_def)
  have "season r' = ''primavera_clara''"
    unfolding s' k by (rule dict_get_hit[OF season_matrix_distinct m])
  with d' show "\<exists>r. determine_season ''clara''
              (undertone (analyze_undertone ''verde'' ''oro'' ''broncea_facil'' ''durazno''))
              ''azul'' ''rubio'' ''bajo'' = Inr r
         \<and> season r = ''primavera_clara''"
    unfolding e2e_undertone by (intro exI[of _ r'] conjI)
qed

text \<open>Black hair with blue eyes replaces a supplied bajo by alto; black hair with grey
  eyes is no key of the table and the supplied bajo is used.\<close>
theorem determine_season_contrast_override_witness:
  "(\<exists>r. determine_season ''clara'' ''calido'' ''azul'' ''negro'' ''bajo'' = Inr r
        \<and> season r = ''primavera_calida'')
   \<and> (\<exists>r. determine_season ''clara'' ''calido'' ''gris'' ''negro'' ''bajo'' = Inr r
        \<and> season r = ''primavera_clara'')"
proof (intro conjI)
  have m1: "((''clara'', ''calido'', ''alto''), ''primavera_calida'') \<in> set season_matrix"
    by (simp add: season_matrix_def)
  have m2: "((''clara'', ''calido'', ''bajo''), ''primavera_clara'') \<in> set season_matrix"
    by (simp add: season_matrix_def)
  from determine_season_contrast_override[of "''clara''" "''calido''" "''azul''" "''negro''" "''bajo''"]
  obtain r1 where "determine_season ''clara'' ''calido'' ''azul'' ''negro'' ''bajo'' = Inr r1"
    and "season r1 = dict_get season_matrix (''clara'', ''calido'', ''alto'') ''verano_suave''"
    by simp (elim conjE exE)
  then show "\<exists>r. determine_season ''clara'' ''calido'' ''azul'' ''negro'' ''bajo'' = Inr r
        \<and> season r = ''primavera_calida''"
    unfolding dict_get_hit[OF season_matrix_distinct m1] by (intro exI[of _ r1] conjI)
  from determine_season_contrast_override[of "''clara''" "''calido''" "''gris''" "''negro''" "''bajo''"]
  obtain r2 where "determine_season ''clara'' ''calido'' ''gris'' ''negro'' ''bajo'' = Inr r2"
    and "season r2 = dict_get season_matrix (''clara'', ''calido'', ''bajo'') ''verano_suave''"
    by simp (elim conjE exE)
  then show "\<exists>r. determine_season ''clara'' ''calido'' ''gris'' ''negro'' ''bajo'' = Inr r
        \<and> season r = ''primavera_clara''"
    unfolding dict_get_hit[OF season_matrix_distinct m2] by (intro exI[of _ r2] conjI)
qed

section \<open>Float arithmetic\<close>

subsection \<open>Rounding to the nearest integer\<close>

lemma rhe_error: "\<bar>of_int (round_half_even x) - x\<bar> \<le> 1/2"
proof -
  have "of_int \<lfloor>x\<rfloor> \<le> x" "x < of_int \<lfloor>x\<rfloor> + 1" by linarith+
  then show ?thesis
    by (auto simp: round_half_even_def Let_def abs_le_iff)
qed

lemma rhe_mono:
  assumes "x \<le> y"
  shows "round_half_even x \<le> round_half_even y"
proof (cases "\<lfloor>x\<rfloor> = \<lfloor>y\<rfloor>")
  case True
  with assms show ?thesis
    by (auto simp: round_half_even_def Let_def)
next
  case False
  with assms have "\<lfloor>x\<rfloor> + 1 \<le> \<lfloor>y\<rfloor>"
    using floor_mono[of x y] by linarith
  moreover have "round_half_even x \<le> \<lfloor>x\<rfloor> + 1" "\<lfloor>y\<rfloor> \<le> round_half_even y"
    by (auto simp: round_half_even_def Let_def)
  ultimately show ?thesis by linarith
qed

lemma rhe_of_int: "round_half_even (of_int n) = n"
  by (simp add: round_half_even_def)

subsection \<open>The binary exponent\<close>

lemma ilog2_bounds:
  assumes "0 < x"
  shows "2 powi ilog2 x \<le> x" and "x < 2 powi (ilog2 x + 1)"
proof -
  have "2 powi ilog2 x \<le> x \<and> x < 2 powi (ilog2 x + 1)"
  proof (cases "1 \<le> x")
    case True
    define n where "n = \<lfloor>x\<rfloor>"
    have n: "0 < n" "of_int n \<le> x" "x < of_int n + 1"
      using True by (auto simp: n_def) linarith+
    have b1: "1 \<le> bitlen n" using n(1) by (simp add: bitlen_alt_def)
    from bitlen_bounds[OF n(1)]
    have lo: "2 ^ nat (bitlen n - 1) \<le> n" and hi: "n + 1 \<le> 2 ^ nat (bitlen n)" by auto
    have e: "ilog2 x = bitlen n - 1" using True by (simp add: ilog2_def n_def)
    have "(2::rat) powi (bitlen n - 1) = of_int (2 ^ nat (bitlen n - 1))"
      using b1 by (simp add: power_int_def)
    also have "\<dots> \<le> of_int n" using lo by (simp only: of_int_le_iff)
    finally have 1: "2 powi ilog2 x \<le> x" using n(2) e by simp
    have "x < of_int (n + 1)" using n(3) by simp
    also have "\<dots> \<le> of_int (2 ^ nat (bitlen n))" using hi by (simp only: of_int_le_iff)
    also have "\<dots> = (2::rat) powi (bitlen n)" using b1 by (simp add: power_int_def)
    finally have 2: "x < 2 powi (ilog2 x + 1)" using e by simp
    from 1 2 show ?thesis ..
  next
    case False
    define y where "y = 1 / x"
    define c where "c = \<lceil>y\<rceil> - 1"
    have y1: "1 < y" using False assms by (simp add: y_def)
    have c: "0 < c" "of_int c < y" "y \<le> of_int c + 1"
      using y1 by (auto simp: c_def) linarith+
    have b1: "1 \<le> bitlen c" using c(1) by (simp add: bitlen_alt_def)
    from bitlen_bounds[OF c(1)]
    have lo: "2 ^ nat (bitlen c - 1) \<le> c" and hi: "c + 1 \<le> 2 ^ nat (bitlen c)" by auto
    have e: "ilog2 x = - bitlen c" using False by (simp add: ilog2_def c_def y_def)
    have xy: "x = 1 / y" using assms by (simp add: y_def)
    have "y \<le> of_int (c + 1)" using c(3) by simp
    also have "\<dots> \<le> of_int (2 ^ nat (bitlen c))" using hi by (simp only: of_int_le_iff)
    finally have "y \<le> 2 ^ nat (bitlen c)" by simp
    then have "1 / 2 ^ nat (bitlen c) \<le> 1 / y"
      using y1 by (intro divide_left_mono) auto
    moreover have "(2::rat) powi (- bitlen c) = 1 / 2 ^ nat (bitlen c)"
      using b1 by (simp add: power_int_def field_simps)
    ultimately have 1: "2 powi ilog2 x \<le> x" using e xy by simp
    have "(2::rat) ^ nat (bitlen c - 1) = of_int (2 ^ nat (bitlen c - 1))" by simp
    also have "\<dots> \<le> of_int c" using lo by (simp only: of_int_le_iff)
    also have "\<dots> < y" by (rule c(2))
    finally have lt: "2 ^ nat (bitlen c - 1) < y" .
    have "1 / y < 1 / 2 ^ nat (bitlen c - 1)"
      using lt y1 by (intro divide_strict_left_mono) auto
    moreover have "(2::rat) powi (- bitlen c + 1) = 1 / 2 ^ nat (bitlen c - 1)"
      using b1 by (simp add: power_int_def field_simps)
    ultimately have 2: "x < 2 powi (ilog2 x + 1)" using e xy by simp
    from 1 2 show ?thesis ..
  qed
  then show "2 powi ilog2 x \<le> x" and "x < 2 powi (ilog2 x + 1)" by auto
qed

lemma ilog2_mono:
  assumes "0 < x" "x \<le> y"
  shows "ilog2 x \<le> ilog2 y"
proof (rule ccontr)
  assume "\<not> ilog2 x \<le> ilog2 y"
  then have "ilog2 y + 1 \<le> ilog2 x" by simp
  then have "(2::rat) powi (ilog2 y + 1) \<le> 2 powi ilog2 x"
    by (intro power_int_increasing) auto
  moreover have "y < 2 powi (ilog2 y + 1)" using assms by (intro ilog2_bounds) auto
  moreover have "2 powi ilog2 x \<le> x" using assms by (intro ilog2_bounds)
  ultimately show False using assms by linarith
qed

subsection \<open>Rounding to a double\<close>

lemma fl_0: "fl 0 = 0"
  by (simp add: fl_def)

lemma fl_minus: "fl (- x) = - fl x"
  by (simp add: fl_def Let_def sgn_minus)

text \<open>The unit in the last place of a positive number, and the scaled significand.\<close>

lemma ulp_pos: "0 < (2::rat) powi k"
  by simp

lemma pow2_split:
  "(2::rat) powi k = 2 ^ 52 * 2 powi (k - 52)"
  "(2::rat) powi (k + 1) = 2 ^ 53 * 2 powi (k - 52)"
proof -
  have "(2::rat) powi (52 + (k - 52)) = 2 powi 52 * 2 powi (k - 52)"
    by (rule power_int_add) simp
  then show "(2::rat) powi k = 2 ^ 52 * 2 powi (k - 52)" by simp
  have "(2::rat) powi (53 + (k - 52)) = 2 powi 53 * 2 powi (k - 52)"
    by (rule power_int_add) simp
  moreover have "53 + (k - 52) = k + 1" by simp
  ultimately show "(2::rat) powi (k + 1) = 2 ^ 53 * 2 powi (k - 52)" by simp
qed

lemma fl_pos_def:
  assumes "0 < x"
  shows "fl x = of_int (round_half_even (x / 2 powi (ilog2 x - 52))) * 2 powi (ilog2 x - 52)"
  using assms by (simp add: fl_def Let_def)

lemma scaled_bounds:
  assumes "0 < x"
  shows "2 ^ 52 \<le> x / 2 powi (ilog2 x - 52)" and "x / 2 powi (ilog2 x - 52) < 2 ^ 53"
proof -
  note a = pow2_split(1)[of "ilog2 x"]
  note b = pow2_split(2)[of "ilog2 x"]
  from ilog2_bounds(1)[OF assms] show "2 ^ 52 \<le> x / 2 powi (ilog2 x - 52)"
    unfolding a by (simp add: pos_le_divide_eq)
  from ilog2_bounds(2)[OF assms] show "x / 2 powi (ilog2 x - 52) < 2 ^ 53"
    unfolding b by (simp add: pos_divide_less_eq)
qed

lemma significand_bounds:
  assumes "0 < x"
  shows "2 ^ 52 \<le> round_half_even (x / 2 powi (ilog2 x - 52))"
    and "round_half_even (x / 2 powi (ilog2 x - 52)) \<le> 2 ^ 53"
proof -
  have "round_half_even (of_int (2 ^ 52)) \<le> round_half_even (x / 2 powi (ilog2 x - 52))"
    using scaled_bounds(1)[OF assms] by (intro rhe_mono) simp
  then show "2 ^ 52 \<le> round_half_even (x / 2 powi (ilog2 x - 52))"
    by (simp only: rhe_of_int)
  have "round_half_even (x / 2 powi (ilog2 x - 52)) \<le> round_half_even (of_int (2 ^ 53))"
    using scaled_bounds(2)[OF assms] by (intro rhe_mono) simp
  then show "round_half_even (x / 2 powi (ilog2 x - 52)) \<le> 2 ^ 53"
    by (simp only: rhe_of_int)
qed

lemma fl_pos_range:
  assumes "0 < x"
  shows "2 powi ilog2 x \<le> fl x" and "fl x \<le> 2 powi (ilog2 x + 1)"
proof -
  let ?u = "(2::rat) powi (ilog2 x - 52)"
  let ?n = "round_half_even (x / ?u)"
  note a = pow2_split(1)[of "ilog2 x"]
  note b = pow2_split(2)[of "ilog2 x"]
  have "(2::rat) ^ 52 = of_int (2 ^ 52)" by simp
  also have "\<dots> \<le> of_int ?n"
    using significand_bounds(1)[OF assms] by (simp only: of_int_le_iff)
  finally have "2 ^ 52 * ?u \<le> of_int ?n * ?u"
    by (intro mult_right_mono) auto
  then show "2 powi ilog2 x \<le> fl x"
    unfolding a fl_pos_def[OF assms] .
  have "of_int ?n \<le> (of_int (2 ^ 53) :: rat)"
    using significand_bounds(2)[OF assms] by (simp only: of_int_le_iff)
  then have "of_int ?n * ?u \<le> 2 ^ 53 * ?u"
    by (intro mult_right_mono) auto
  then show "fl x \<le> 2 powi (ilog2 x + 1)"
    unfolding b fl_pos_def[OF assms] .
qed

lemma fl_pos: "0 < x \<Longrightarrow> 0 < fl x"
  using fl_pos_range(1)[of x] ulp_pos[of "ilog2 x"] by linarith

lemma fl_neg: "x < 0 \<Longrightarrow> fl x < 0"
  using fl_pos[of "- x"] by (simp add: fl_minus)

lemma fl_eq_0_iff: "fl x = 0 \<longleftrightarrow> x = 0"
  using fl_pos[of x] fl_neg[of x] fl_0 by (cases "x = 0"; cases "0 < x") auto

lemma fl_mono_pos:
  assumes "0 < x" "x \<le> y"
  shows "fl x \<le> fl y"
proof (cases "ilog2 x = ilog2 y")
  case True
  let ?u = "(2::rat) powi (ilog2 y - 52)"
  have y: "0 < y" using assms by linarith
  have "x / ?u \<le> y / ?u" using assms by (intro divide_right_mono) auto
  then have "round_half_even (x / ?u) \<le> round_half_even (y / ?u)" by (rule rhe_mono)
  then have "(of_int (round_half_even (x / ?u)) :: rat) \<le> of_int (round_half_even (y / ?u))"
    by (simp only: of_int_le_iff)
  then have "of_int (round_half_even (x / ?u)) * ?u \<le> of_int (round_half_even (y / ?u)) * ?u"
    by (intro mult_right_mono) auto
  then show ?thesis
    unfolding fl_pos_def[OF assms(1)] fl_pos_def[OF y] True .
next
  case False
  have y: "0 < y" using assms by linarith
  from False ilog2_mono[OF assms] have "ilog2 x + 1 \<le> ilog2 y" by linarith
  then have "(2::rat) powi (ilog2 x + 1) \<le> 2 powi ilog2 y"
    by (intro power_int_increasing) auto
  with fl_pos_range(2)[OF assms(1)] fl_pos_range(1)[OF y] show ?thesis by linarith
qed

lemma fl_mono:
  assumes "x \<le> y"
  shows "fl x \<le> fl y"
proof -
  consider "0 < x" | "x \<le> 0" "0 \<le> y" | "y < 0" by linarith
  then show ?thesis
  proof cases
    case 1
    then show ?thesis using assms by (rule fl_mono_pos)
  next
    case 2
    have "fl x \<le> 0" using 2(1) fl_neg[of x] fl_0 by (cases "x = 0") auto
    moreover have "0 \<le> fl y" using 2(2) fl_pos[of y] fl_0 by (cases "y = 0") auto
    ultimately show ?thesis by linarith
  next
    case 3
    then have "fl (- y) \<le> fl (- x)" using assms by (intro fl_mono_pos) auto
    then show ?thesis by (simp add: fl_minus)
  qed
qed

lemma fl_error_pos:
  assumes "0 < x"
  shows "\<bar>fl x - x\<bar> \<le> x / 2 ^ 53"
proof -
  let ?u = "(2::rat) powi (ilog2 x - 52)"
  let ?n = "round_half_even (x / ?u)"
  have u: "0 < ?u" by simp
  have "\<bar>of_int ?n - x / ?u\<bar> \<le> 1/2" by (rule rhe_error)
  then have "\<bar>of_int ?n - x / ?u\<bar> * ?u \<le> 1/2 * ?u"
    by (intro mult_right_mono) auto
  moreover have "\<bar>of_int ?n - x / ?u\<bar> * ?u = \<bar>of_int ?n * ?u - x\<bar>"
  proof -
    have "\<bar>of_int ?n - x / ?u\<bar> * ?u = \<bar>(of_int ?n - x / ?u) * ?u\<bar>"
      using u by (simp add: abs_mult)
    also have "(of_int ?n - x / ?u) * ?u = of_int ?n * ?u - x"
      using u by (simp add: left_diff_distrib)
    finally show ?thesis .
  qed
  ultimately have 1: "\<bar>fl x - x\<bar> \<le> ?u / 2"
    unfolding fl_pos_def[OF assms] by simp
  have "2 ^ 52 * ?u \<le> x"
    using scaled_bounds(1)[OF assms] u by (simp add: pos_le_divide_eq)
  then have "?u / 2 \<le> x / 2 ^ 53" by simp
  with 1 show ?thesis by linarith
qed

lemma fl_error: "\<bar>fl x - x\<bar> \<le> \<bar>x\<bar> / 2 ^ 53"
proof -
  consider "0 < x" | "x = 0" | "x < 0" by linarith
  then show ?thesis
  proof cases
    case 1
    then show ?thesis using fl_error_pos[of x] by simp
  next
    case 2
    then show ?thesis by (simp add: fl_0)
  next
    case 3
    then show ?thesis using fl_error_pos[of "- x"] by (simp add: fl_minus)
  qed
qed

subsection \<open>Evaluating floats on numerals\<close>

lemma bitlen_numeral_eval:
  "bitlen 1 = 1"
  "bitlen (numeral (Num.Bit0 n)) = bitlen (numeral n) + 1"
  "bitlen (numeral (Num.Bit1 n)) = bitlen (numeral n) + 1"
proof -
  show "bitlen 1 = 1" by (simp add: bitlen_alt_def)
  have d0: "(numeral (Num.Bit0 n) :: int) div 2 = numeral n" by simp
  have d1: "(numeral (Num.Bit1 n) :: int) div 2 = numeral n" by simp
  show "bitlen (numeral (Num.Bit0 n)) = bitlen (numeral n) + 1"
    by (subst compute_bitlen) (simp only: d0, simp)
  show "bitlen (numeral (Num.Bit1 n)) = bitlen (numeral n) + 1"
    by (subst compute_bitlen) (simp only: d1, simp)
qed

lemma floor_rat_numeral_eval:
  "\<lfloor>numeral a / numeral b :: rat\<rfloor> = numeral a div numeral b"
  "\<lfloor>- (numeral a / numeral b) :: rat\<rfloor> = - numeral a div numeral b"
  "\<lfloor>1 / numeral b :: rat\<rfloor> = 1 div numeral b"
  "\<lfloor>- (1 / numeral b) :: rat\<rfloor> = - 1 div numeral b"
  using floor_divide_of_int_eq[of "numeral a" "numeral b", where ?'a = rat]
        floor_divide_of_int_eq[of "- numeral a" "numeral b", where ?'a = rat]
        floor_divide_of_int_eq[of "1" "numeral b", where ?'a = rat]
        floor_divide_of_int_eq[of "- 1" "numeral b", where ?'a = rat]
  by simp_all

lemma fl_compute:
  "fl x = (if x = 0 then 0
           else if 52 \<le> ilog2 \<bar>x\<bar>
                then sgn x * of_int (round_half_even (\<bar>x\<bar> / 2 ^ nat (ilog2 \<bar>x\<bar> - 52)))
                       * 2 ^ nat (ilog2 \<bar>x\<bar> - 52)
                else sgn x * of_int (round_half_even (\<bar>x\<bar> * 2 ^ nat (52 - ilog2 \<bar>x\<bar>)))
                       / 2 ^ nat (52 - ilog2 \<bar>x\<bar>))"
  by (auto simp: fl_def Let_def power_int_def field_simps)

lemmas fl_eval = fl_compute ilog2_def round_half_even_def bitlen_numeral_eval Let_def ceiling_def
  floor_rat_numeral_eval

lemma fl_1: "fl 1 = 1" by (simp add: fl_eval)
lemma fl_2: "fl 2 = 2" by (simp add: fl_eval)

lemma fl_unit_interval: "0 \<le> x \<Longrightarrow> x \<le> 1 \<Longrightarrow> 0 \<le> fl x \<and> fl x \<le> 1"
  using fl_mono[of 0 x] fl_mono[of x 1] by (simp add: fl_0 fl_1)

subsection \<open>Hexadecimal digits\<close>

lemma hex_value_SomeD:
  assumes "hex_value c = Some v"
  shows "v < 16" and "\<not> is_space16 c" and "c \<noteq> CHR ''-''" and "c \<noteq> CHR ''+''" and "c \<noteq> CHR ''#''"
proof -
  show "v < 16" using assms by (auto simp: hex_value_def Let_def split: if_splits)
  show "\<not> is_space16 c"
    using assms by (auto simp: hex_value_def is_space16_def Let_def split: if_splits)
  show "c \<noteq> CHR ''-''" using assms by (auto simp: hex_value_def Let_def split: if_splits)
  show "c \<noteq> CHR ''+''" using assms by (auto simp: hex_value_def Let_def split: if_splits)
  show "c \<noteq> CHR ''#''" using assms by (auto simp: hex_value_def Let_def split: if_splits)
qed

lemma py_int16_two_digits:
  assumes "hex_value a = Some va" and "hex_value b = Some vb"
  shows "py_int16 [a, b] = Inr (int (16 * va + vb))"
proof -
  note A = hex_value_SomeD[OF assms(1)] and B = hex_value_SomeD[OF assms(2)]
  have "strip [a, b] = [a, b]" using A(2) B(2) by (simp add: strip_def)
  then show ?thesis using A(3,4) assms by (simp add: py_int16_def)
qed

lemma is_hex_digitD: "is_hex_digit c \<Longrightarrow> \<exists>v. hex_value c = Some v"
  by (simp add: is_hex_digit_def)

text \<open>The three channels of a string of six digits.\<close>

lemma six_digits:
  assumes "length t = 6" and "list_all is_hex_digit t"
  obtains a b c d e f where "t = [a, b, c, d, e, f]"
    and "is_hex_digit a" "is_hex_digit b" "is_hex_digit c"
        "is_hex_digit d" "is_hex_digit e" "is_hex_digit f"
proof -
  from assms(1) obtain a b c d e f where t: "t = [a, b, c, d, e, f]"
    by (auto simp: length_Suc_conv eval_nat_numeral)
  with assms(2) show thesis by (intro that[OF t]) simp_all
qed

lemma well_formed_lstrip:
  assumes "well_formed_hex s"
  shows "length (lstrip_hash s) = 6 \<and> list_all is_hex_digit (lstrip_hash s)"
proof -
  have nohash: "lstrip_hash t = t" if "length t = 6" "list_all is_hex_digit t" for t
  proof -
    from that obtain a r where "t = a # r" "is_hex_digit a" by (cases t) auto
    moreover then have "a \<noteq> CHR ''#''" using hex_value_SomeD(5) is_hex_digitD by blast
    ultimately show ?thesis by (simp add: lstrip_hash_def)
  qed
  show ?thesis
  proof (cases s)
    case Nil
    with assms show ?thesis by (simp add: well_formed_hex_def)
  next
    case (Cons c cs)
    show ?thesis
    proof (cases "c = CHR ''#''")
      case True
      with Cons assms have "length cs = 6" "list_all is_hex_digit cs"
        by (simp_all add: well_formed_hex_def)
      moreover have "lstrip_hash s = lstrip_hash cs" using Cons True by (simp add: lstrip_hash_def)
      ultimately show ?thesis using nohash by simp
    next
      case False
      with Cons assms have "length s = 6" "list_all is_hex_digit s"
        by (simp_all add: well_formed_hex_def)
      then show ?thesis using nohash by simp
    qed
  qed
qed

subsection \<open>\<open>rgb_to_hls\<close> on the unit cube\<close>

lemma rgb_to_hls_unit:
  assumes "0 \<le> r" "r \<le> 1" "0 \<le> g" "g \<le> 1" "0 \<le> b" "b \<le> 1"
  shows "\<exists>h l s. rgb_to_hls r g b = Inr (h, l, s) \<and> 0 \<le> l \<and> l \<le> 1 \<and> 0 \<le> s \<and> s \<le> 1"
proof -
  define maxc where "maxc = max (max r g) b"
  define minc where "minc = min (min r g) b"
  define sumc where "sumc = fadd maxc minc"
  define rangec where "rangec = fsub maxc minc"
  define l where "l = fl (sumc / 2)"
  have mm: "0 \<le> minc" "minc \<le> maxc" "maxc \<le> 1"
    using assms by (auto simp: maxc_def minc_def)
  have sumc: "0 \<le> sumc" "sumc \<le> 2"
    using fl_mono[of 0 "maxc + minc"] fl_mono[of "maxc + minc" 2] mm
    by (simp_all add: sumc_def fadd_def fl_0 fl_2)
  have l: "0 \<le> l" "l \<le> 1"
    using fl_unit_interval[of "sumc / 2"] sumc by (simp_all add: l_def)
  show ?thesis
  proof (cases "minc = maxc")
    case True
    then have "rgb_to_hls r g b = Inr (0, l, 0)"
      by (simp add: rgb_to_hls_def Let_def maxc_def minc_def l_def sumc_def)
    with l show ?thesis by simp
  next
    case False
    with mm have lt: "minc < maxc" by simp
    have rpos: "0 < rangec" using lt fl_pos[of "maxc - minc"] by (simp add: rangec_def fsub_def)
    have r_le_sum: "rangec \<le> sumc"
      unfolding rangec_def sumc_def fsub_def fadd_def using mm by (intro fl_mono) simp
    define den where "den = fsub (fsub 2 maxc) minc"
    have "1 \<le> fl (2 - maxc)" using fl_mono[of 1 "2 - maxc"] mm by (simp add: fl_1)
    then have "maxc - minc \<le> fl (2 - maxc) - minc" using mm by simp
    then have r_le_den: "rangec \<le> den"
      unfolding rangec_def den_def fsub_def by (rule fl_mono)
    define s where "s = (if l \<le> 1/2 then fl (rangec / sumc) else fl (rangec / den))"
    have sdiv: "(if l \<le> 1/2 then fdiv rangec sumc else fdiv rangec den) = Inr s"
      using rpos r_le_sum r_le_den by (simp add: fdiv_def s_def)
    have s: "0 \<le> s" "s \<le> 1"
    proof -
      have "0 \<le> rangec / sumc \<and> rangec / sumc \<le> 1"
        using rpos r_le_sum by (simp add: divide_le_eq_1)
      moreover have "0 \<le> rangec / den \<and> rangec / den \<le> 1"
        using rpos r_le_den by (simp add: divide_le_eq_1)
      ultimately show "0 \<le> s" "s \<le> 1"
        using fl_unit_interval[of "rangec / sumc"] fl_unit_interval[of "rangec / den"]
        by (simp_all add: s_def)
    qed
    have rne: "rangec \<noteq> 0" using rpos by simp
    have ch: "fdiv y rangec = Inr (fl (y / rangec))" for y
      using rne by (simp add: fdiv_def)
    have "\<exists>h. rgb_to_hls r g b = Inr (h, l, s)"
      unfolding rgb_to_hls_def Let_def maxc_def[symmetric] minc_def[symmetric]
      unfolding sumc_def[symmetric] rangec_def[symmetric]
      unfolding l_def[symmetric] den_def[symmetric] sdiv ch
      using False by simp
    with l s show ?thesis by blast
  qed
qed

lemma channel_unit:
  assumes "v < 16" "w < 16"
  shows "0 \<le> fl (rat_of_int (int (16 * v + w)) / 255)"
    and "fl (rat_of_int (int (16 * v + w)) / 255) \<le> 1"
proof -
  have "16 * v + w \<le> 255" using assms by simp
  then have "rat_of_int (int (16 * v + w)) \<le> 255"
    by (metis of_int_of_nat_eq of_nat_le_iff of_nat_numeral)
  then have "0 \<le> rat_of_int (int (16 * v + w)) / 255 \<and> rat_of_int (int (16 * v + w)) / 255 \<le> 1"
    by simp
  then show "0 \<le> fl (rat_of_int (int (16 * v + w)) / 255)"
    and "fl (rat_of_int (int (16 * v + w)) / 255) \<le> 1"
    using fl_unit_interval by blast+
qed

lemma slice2_take6:
  "slice2 (take 6 s) 0 = slice2 s 0" "slice2 (take 6 s) 2 = slice2 s 2"
  "slice2 (take 6 s) 4 = slice2 s 4"
  by (simp_all add: slice2_def drop_take)

text \<open>Only the first six characters after the leading \<open>#\<close>s are read.\<close>

lemma hex_to_hsl_six_digits:
  assumes "take 6 (lstrip_hash x) = [a, b, c, d, e, f]"
    and "hex_value a = Some va" "hex_value b = Some vb" "hex_value c = Some vc"
        "hex_value d = Some vd" "hex_value e = Some ve" "hex_value f = Some vf"
  shows "hex_to_hsl x = rgb_to_hls (fl (rat_of_int (int (16 * va + vb)) / 255))
                                   (fl (rat_of_int (int (16 * vc + vd)) / 255))
                                   (fl (rat_of_int (int (16 * ve + vf)) / 255))"
proof -
  have "slice2 (lstrip_hash x) 0 = [a, b]" "slice2 (lstrip_hash x) 2 = [c, d]"
       "slice2 (lstrip_hash x) 4 = [e, f]"
    unfolding slice2_take6[of "lstrip_hash x", symmetric] assms(1)
    by (simp_all add: slice2_def)
  then show ?thesis
    unfolding hex_to_hsl_def Let_def
    by (simp add: py_int16_two_digits[OF assms(2,3)] py_int16_two_digits[OF assms(4,5)]
          py_int16_two_digits[OF assms(6,7)])
qed

lemma hex_to_hsl_first_six:
  assumes "6 \<le> length (lstrip_hash x)" and "list_all is_hex_digit (take 6 (lstrip_hash x))"
  shows "\<exists>h l s. hex_to_hsl x = Inr (h, l, s) \<and> 0 \<le> l \<and> l \<le> 1 \<and> 0 \<le> s \<and> s \<le> 1"
proof -
  have "length (take 6 (lstrip_hash x)) = 6" using assms(1) by simp
  from six_digits[OF this assms(2)] obtain a b c d e f
    where t: "take 6 (lstrip_hash x) = [a, b, c, d, e, f]"
      and h: "is_hex_digit a" "is_hex_digit b" "is_hex_digit c"
             "is_hex_digit d" "is_hex_digit e" "is_hex_digit f"
    by blast
  obtain va where va: "hex_value a = Some va" using h(1) is_hex_digitD by blast
  obtain vb where vb: "hex_value b = Some vb" using h(2) is_hex_digitD by blast
  obtain vc where vc: "hex_value c = Some vc" using h(3) is_hex_digitD by blast
  obtain vd where vd: "hex_value d = Some vd" using h(4) is_hex_digitD by blast
  obtain ve where ve: "hex_value e = Some ve" using h(5) is_hex_digitD by blast
  obtain vf where vf: "hex_value f = Some vf" using h(6) is_hex_digitD by blast
  note v = va vb vc vd ve vf
  have lt: "va < 16" "vb < 16" "vc < 16" "vd < 16" "ve < 16" "vf < 16"
    using v hex_value_SomeD(1) by blast+
  show ?thesis
    unfolding hex_to_hsl_six_digits[OF t v]
    by (intro rgb_to_hls_unit channel_unit lt)
qed

lemma hex_to_hsl_well_formed:
  assumes "well_formed_hex x"
  shows "\<exists>h l s. hex_to_hsl x = Inr (h, l, s) \<and> 0 \<le> l \<and> l \<le> 1 \<and> 0 \<le> s \<and> s \<le> 1"
  using well_formed_lstrip[OF assms] by (intro hex_to_hsl_first_six) simp_all

subsection \<open>Coarse error bounds\<close>

lemma fl_err_small:
  assumes "\<bar>x\<bar> \<le> 1000"
  shows "\<bar>fl x - x\<bar> \<le> 1 / 1000000000"
proof -
  have "\<bar>fl x - x\<bar> \<le> \<bar>x\<bar> / 2 ^ 53" by (rule fl_error)
  also have "\<dots> \<le> 1000 / 2 ^ 53" using assms by (intro divide_right_mono) auto
  also have "\<dots> \<le> 1 / 1000000000" by simp
  finally show ?thesis .
qed

lemma fmod1_range: "0 \<le> fmod1 x \<and> fmod1 x \<le> 1"
proof -
  define m where "m = x - of_int (py_trunc x)"
  have m: "- 1 < m" "m < 1"
    unfolding m_def py_trunc_def by (auto; linarith)+
  show ?thesis
  proof (cases "m < 0")
    case True
    then have "fmod1 x = fl (m + 1)" by (simp add: fmod1_def m_def Let_def)
    moreover have "0 \<le> fl (m + 1) \<and> fl (m + 1) \<le> 1"
      using m True by (intro fl_unit_interval) auto
    ultimately show ?thesis by simp
  next
    case False
    then have "fmod1 x = m" by (simp add: fmod1_def m_def Let_def)
    with False m show ?thesis by simp
  qed
qed

lemma ONE_SIXTH_val: "ONE_SIXTH = 6004799503160661 / 36028797018963968"
  by (simp add: ONE_SIXTH_def fl_eval)

lemma TWO_THIRD_val: "TWO_THIRD = 6004799503160661 / 9007199254740992"
  by (simp add: TWO_THIRD_def fl_eval)

lemma ONE_THIRD_val: "ONE_THIRD = 6004799503160661 / 18014398509481984"
  by (simp add: ONE_THIRD_def fl_eval)

lemma TWO_THIRD_minus_half: "fl (TWO_THIRD - 1/2) = 1501199875790165 / 9007199254740992"
  by (simp add: TWO_THIRD_val fl_eval)

subsection \<open>The interpolation of \<open>_v\<close>\<close>

lemma interpolate_range:
  assumes m: "- (1 / 1000000) \<le> m1" "m1 \<le> 1 + 1 / 1000000"
             "- (1 / 1000000) \<le> m2" "m2 \<le> 1 + 1 / 1000000"
    and w: "0 \<le> w" "6 * w \<le> 1"
  shows "- (2 / 1000000) \<le> fadd m1 (fmul (fmul (fsub m2 m1) w) 6)"
    and "fadd m1 (fmul (fmul (fsub m2 m1) w) 6) \<le> 1 + 2 / 1000000"
proof -
  define d where "d = fl (m2 - m1)"
  define p where "p = fl (d * w)"
  define q where "q = fl (p * 6)"
  define v where "v = fl (m1 + q)"
  have v_eq: "fadd m1 (fmul (fmul (fsub m2 m1) w) 6) = v"
    by (simp add: fadd_def fmul_def fsub_def d_def p_def q_def v_def)
  have d: "\<bar>d - (m2 - m1)\<bar> \<le> 1 / 1000000000"
    unfolding d_def using m by (intro fl_err_small) linarith
  have dabs: "\<bar>d\<bar> \<le> 2" using d m by linarith
  have w1: "w \<le> 1" using w by simp
  have dw: "\<bar>d * w\<bar> \<le> 2"
  proof -
    have "\<bar>d * w\<bar> = \<bar>d\<bar> * w" using w by (simp add: abs_mult)
    also have "\<dots> \<le> 2 * 1" using dabs w w1 by (intro mult_mono) auto
    finally show ?thesis by simp
  qed
  have p: "\<bar>p - d * w\<bar> \<le> 1 / 1000000000"
    unfolding p_def using dw by (intro fl_err_small) simp
  have pabs: "\<bar>p\<bar> \<le> 3" using p dw by linarith
  have q: "\<bar>q - p * 6\<bar> \<le> 1 / 1000000000"
    unfolding q_def using pabs by (intro fl_err_small) linarith
  text \<open>The exact interpolant lies between 0 and \<open>d\<close>.\<close>
  define t where "t = 6 * w"
  have t: "0 \<le> t" "t \<le> 1" using w by (simp_all add: t_def)
  have dt: "d * w * 6 = d * t" by (simp add: t_def)
  have between: "min 0 d \<le> d * t \<and> d * t \<le> max 0 d"
  proof (cases "0 \<le> d")
    case True
    then have "0 \<le> d * t" using t by simp
    moreover have "d * t \<le> d * 1" using True t by (intro mult_left_mono) auto
    ultimately show ?thesis using True by simp
  next
    case False
    then have "d * t \<le> 0" using t by (simp add: mult_le_0_iff)
    moreover have "d * 1 \<le> d * t" using False t by (intro mult_left_mono_neg) auto
    ultimately show ?thesis using False by simp
  qed
  have qd: "\<bar>q - d * t\<bar> \<le> 7 / 1000000000"
    using p q unfolding dt[symmetric] by linarith
  have lo: "- (1 / 1000000) - 8 / 1000000000 \<le> m1 + q"
    using between qd d m by linarith
  have hi: "m1 + q \<le> 1 + 1 / 1000000 + 8 / 1000000000"
    using between qd d m by linarith
  have "\<bar>v - (m1 + q)\<bar> \<le> 1 / 1000000000"
    unfolding v_def using lo hi by (intro fl_err_small) linarith
  with lo hi have "- (2 / 1000000) \<le> v \<and> v \<le> 1 + 2 / 1000000"
    by linarith
  then show "- (2 / 1000000) \<le> fadd m1 (fmul (fmul (fsub m2 m1) w) 6)"
    and "fadd m1 (fmul (fmul (fsub m2 m1) w) 6) \<le> 1 + 2 / 1000000"
    unfolding v_eq by simp_all
qed

lemma v_hls_range:
  assumes m: "- (1 / 1000000) \<le> m1" "m1 \<le> 1 + 1 / 1000000"
             "- (1 / 1000000) \<le> m2" "m2 \<le> 1 + 1 / 1000000"
  shows "- (2 / 1000000) \<le> v_hls m1 m2 hue0 \<and> v_hls m1 m2 hue0 \<le> 1 + 2 / 1000000"
proof -
  define hue where "hue = fmod1 hue0"
  have hue: "0 \<le> hue" using fmod1_range[of hue0] by (simp add: hue_def)
  consider (a) "hue < ONE_SIXTH" | (b) "\<not> hue < ONE_SIXTH" "hue < 1/2"
    | (c) "\<not> hue < ONE_SIXTH" "\<not> hue < 1/2" "hue < TWO_THIRD"
    | (d) "\<not> hue < ONE_SIXTH" "\<not> hue < 1/2" "\<not> hue < TWO_THIRD" by blast
  then show ?thesis
  proof cases
    case a
    then have "6 * hue \<le> 1" by (simp add: ONE_SIXTH_val)
    from interpolate_range[OF m hue this] a show ?thesis
      by (simp add: v_hls_def Let_def hue_def[symmetric])
  next
    case b
    with m show ?thesis by (simp add: v_hls_def Let_def hue_def[symmetric])
  next
    case c
    define w where "w = fsub TWO_THIRD hue"
    have "0 \<le> w" unfolding w_def fsub_def using c fl_mono[of 0 "TWO_THIRD - hue"]
      by (simp add: fl_0)
    moreover have "w \<le> fl (TWO_THIRD - 1/2)"
      unfolding w_def fsub_def using c by (intro fl_mono) simp
    then have "6 * w \<le> 1" by (simp add: TWO_THIRD_minus_half)
    ultimately show ?thesis
      using interpolate_range[OF m, of w] c
      by (simp add: v_hls_def Let_def hue_def[symmetric] w_def[symmetric])
  next
    case d
    with m show ?thesis by (simp add: v_hls_def Let_def hue_def[symmetric])
  qed
qed

subsection \<open>\<open>hls_to_rgb\<close> stays in the unit cube, up to rounding\<close>

lemma m1_m2_range:
  assumes l: "0 \<le> l" "l \<le> 1" and s: "0 \<le> s" "s \<le> 1"
  defines "m2 \<equiv> (if l \<le> 1/2 then fmul l (fadd 1 s) else fsub (fadd l s) (fmul l s))"
  defines "m1 \<equiv> fsub (fmul 2 l) m2"
  shows "- (1 / 1000000) \<le> m1 \<and> m1 \<le> 1 + 1 / 1000000
       \<and> - (1 / 1000000) \<le> m2 \<and> m2 \<le> 1 + 1 / 1000000"
proof (cases "l \<le> 1/2")
  case True
  have a: "1 \<le> fl (1 + s)" "fl (1 + s) \<le> 2"
    using fl_mono[of 1 "1 + s"] fl_mono[of "1 + s" 2] s by (simp_all add: fl_1 fl_2)
  have "0 \<le> l * fl (1 + s)" using l a by simp
  moreover have "l * fl (1 + s) \<le> l * 2" using l a by (intro mult_left_mono) auto
  ultimately have m2: "0 \<le> m2" "m2 \<le> fl (2 * l)"
    using True fl_mono[of 0 "l * fl (1 + s)"] fl_mono[of "l * fl (1 + s)" "2 * l"]
    by (simp_all add: m2_def fmul_def fadd_def fl_0 mult.commute)
  have e: "fl (2 * l) \<le> 1" using True l fl_mono[of "2 * l" 1] by (simp add: fl_1)
  have "0 \<le> fl (2 * l) - m2" "fl (2 * l) - m2 \<le> 1" using m2 e by simp_all
  then have "0 \<le> m1" "m1 \<le> 1"
    using fl_unit_interval[of "fl (2 * l) - m2"] by (simp_all add: m1_def fsub_def fmul_def)
  with m2 e show ?thesis by simp
next
  case False
  define A where "A = fl (l + s)"
  define B where "B = fl (l * s)"
  define E where "E = fl (2 * l)"
  have ls: "0 \<le> l * s" "l * s \<le> s" using l s by (simp_all add: mult_left_le_one_le)
  have A: "\<bar>A - (l + s)\<bar> \<le> 1 / 1000000000"
    unfolding A_def using l s by (intro fl_err_small) linarith
  have B: "\<bar>B - l * s\<bar> \<le> 1 / 1000000000"
    unfolding B_def using ls s by (intro fl_err_small) linarith
  have E: "\<bar>E - 2 * l\<bar> \<le> 1 / 1000000000"
    unfolding E_def using l by (intro fl_err_small) linarith
  have m2_eq: "m2 = fl (A - B)"
    using False by (simp add: m2_def fsub_def fadd_def fmul_def A_def B_def)
  have m1_eq: "m1 = fl (E - m2)"
    by (simp add: m1_def fsub_def fmul_def E_def)
  text \<open>\<open>l + s - l s = 1 - (1 - l) (1 - s)\<close> lies between \<open>l\<close> and 1.\<close>
  have "0 \<le> (1 - l) * (1 - s)" using l s by (intro mult_nonneg_nonneg) auto
  then have up: "l + s - l * s \<le> 1" by (simp add: algebra_simps)
  have lo: "l \<le> l + s - l * s" using ls by simp
  have AB: "l - 2 / 1000000000 \<le> A - B" "A - B \<le> 1 + 2 / 1000000000"
    using A B up lo by linarith+
  have m2: "\<bar>m2 - (A - B)\<bar> \<le> 1 / 1000000000"
    unfolding m2_eq using AB l by (intro fl_err_small) linarith
  have m2r: "l - 3 / 1000000000 \<le> m2" "m2 \<le> 1 + 3 / 1000000000"
    using m2 AB by linarith+
  have Em: "- (4 / 1000000000) \<le> E - m2" "E - m2 \<le> 1 + 4 / 1000000000"
    using E m2r l False by linarith+
  have m1: "\<bar>m1 - (E - m2)\<bar> \<le> 1 / 1000000000"
    unfolding m1_eq using Em by (intro fl_err_small) linarith
  show ?thesis using m1 Em m2r l by (intro conjI) linarith+
qed

lemma hls_to_rgb_range:
  assumes "0 \<le> l" "l \<le> 1" "0 \<le> s" "s \<le> 1"
    and "hls_to_rgb h l s = (r, g, b)"
  shows "- (2 / 1000000) \<le> r \<and> r \<le> 1 + 2 / 1000000
       \<and> - (2 / 1000000) \<le> g \<and> g \<le> 1 + 2 / 1000000
       \<and> - (2 / 1000000) \<le> b \<and> b \<le> 1 + 2 / 1000000"
proof (cases "s = 0")
  case True
  with assms show ?thesis by (auto simp: hls_to_rgb_def)
next
  case False
  define m2 where "m2 = (if l \<le> 1/2 then fmul l (fadd 1 s) else fsub (fadd l s) (fmul l s))"
  define m1 where "m1 = fsub (fmul 2 l) m2"
  have m: "- (1 / 1000000) \<le> m1" "m1 \<le> 1 + 1 / 1000000"
          "- (1 / 1000000) \<le> m2" "m2 \<le> 1 + 1 / 1000000"
    using m1_m2_range[OF assms(1-4)] by (simp_all add: m1_def m2_def)
  have "r = v_hls m1 m2 (fadd h ONE_THIRD)" "g = v_hls m1 m2 h" "b = v_hls m1 m2 (fsub h ONE_THIRD)"
    using assms(5) False by (simp_all add: hls_to_rgb_def Let_def m1_def m2_def)
  then show ?thesis
    using v_hls_range[OF m, of "fadd h ONE_THIRD"] v_hls_range[OF m, of h]
          v_hls_range[OF m, of "fsub h ONE_THIRD"] by simp
qed

subsection \<open>Channels and their two digits\<close>

lemma channel_byte:
  assumes "- (2 / 1000000) \<le> v" "v \<le> 1 + 2 / 1000000"
  shows "0 \<le> py_trunc (fmul v 255) \<and> py_trunc (fmul v 255) \<le> 255"
proof -
  define y where "y = fl (v * 255)"
  have "\<bar>y - v * 255\<bar> \<le> 1 / 1000000000"
    unfolding y_def using assms by (intro fl_err_small) linarith
  with assms have y: "- 1 < y" "y < 256" by linarith+
  have "0 \<le> py_trunc y \<and> py_trunc y \<le> 255"
  proof (cases "0 \<le> y")
    case True
    with y show ?thesis by (simp add: py_trunc_def floor_le_iff le_floor_iff)
  next
    case False
    with y have "\<lceil>y\<rceil> = 0" by (intro ceiling_unique) auto
    with False show ?thesis by (simp add: py_trunc_def)
  qed
  then show ?thesis by (simp add: y_def fmul_def)
qed

lemma hex_value_hex_char:
  assumes "d < 16"
  shows "hex_value (hex_char d) = Some d"
proof -
  from assms have "d = 0 \<or> d = 1 \<or> d = 2 \<or> d = 3 \<or> d = 4 \<or> d = 5 \<or> d = 6 \<or> d = 7
      \<or> d = 8 \<or> d = 9 \<or> d = 10 \<or> d = 11 \<or> d = 12 \<or> d = 13 \<or> d = 14 \<or> d = 15"
    by arith
  then show ?thesis
    by (elim disjE) (simp_all add: hex_char_def hex_value_def)
qed

lemma format_02x_byte:
  assumes "0 \<le> n" "n \<le> 255"
  shows "format_02x n = [hex_char (nat n div 16), hex_char (nat n mod 16)]"
proof -
  define k where "k = nat n"
  have k: "k < 256" using assms by (simp add: k_def)
  have "hex_digits k = (if k < 16 then [hex_char k] else [hex_char (k div 16), hex_char (k mod 16)])"
  proof (cases "k < 16")
    case True
    then show ?thesis by (simp add: hex_digits.simps[of k])
  next
    case False
    with k have "k div 16 < 16" by simp
    with False show ?thesis
      by (simp add: hex_digits.simps[of k] hex_digits.simps[of "k div 16"])
  qed
  moreover have "hex_char 0 = CHR ''0''" by (simp add: hex_char_def)
  ultimately show ?thesis using assms by (auto simp: format_02x_def k_def[symmetric])
qed

lemma format_02x_digits:
  assumes "0 \<le> n" "n \<le> 255"
  shows "\<exists>a b. format_02x n = [a, b] \<and> is_hex_digit a \<and> is_hex_digit b"
proof -
  have "nat n div 16 < 16" "nat n mod 16 < 16" using assms by simp_all
  then show ?thesis
    unfolding format_02x_byte[OF assms] is_hex_digit_def
    by (simp add: hex_value_hex_char)
qed

lemma hsl_to_hex_well_formed:
  assumes "0 \<le> l" "l \<le> 1" "0 \<le> s" "s \<le> 1"
  shows "well_formed_hex (hsl_to_hex h l s)"
proof -
  obtain r g b where rgb: "hls_to_rgb h l s = (r, g, b)" by (cases "hls_to_rgb h l s") auto
  note rng = hls_to_rgb_range[OF assms rgb]
  have R: "0 \<le> py_trunc (fmul r 255) \<and> py_trunc (fmul r 255) \<le> 255"
    using rng by (intro channel_byte) simp_all
  have G: "0 \<le> py_trunc (fmul g 255) \<and> py_trunc (fmul g 255) \<le> 255"
    using rng by (intro channel_byte) simp_all
  have B: "0 \<le> py_trunc (fmul b 255) \<and> py_trunc (fmul b 255) \<le> 255"
    using rng by (intro channel_byte) simp_all
  obtain r1 r2 where r: "format_02x (py_trunc (fmul r 255)) = [r1, r2]"
      "is_hex_digit r1" "is_hex_digit r2" using format_02x_digits R by blast
  obtain g1 g2 where g: "format_02x (py_trunc (fmul g 255)) = [g1, g2]"
      "is_hex_digit g1" "is_hex_digit g2" using format_02x_digits G by blast
  obtain b1 b2 where b: "format_02x (py_trunc (fmul b 255)) = [b1, b2]"
      "is_hex_digit b1" "is_hex_digit b2" using format_02x_digits B by blast
  show ?thesis
    unfolding hsl_to_hex_def rgb using r g b by (simp add: well_formed_hex_def)
qed

subsection \<open>The palette of a well-formed seed\<close>

lemmas str_eval = lstrip_hash_def slice2_def py_int16_def strip_def is_space16_def hex_value_def
lemmas col_eval = rgb_to_hls_def hls_to_rgb_def v_hls_def fadd_def fsub_def fmul_def fdiv_def
  fmod1_def py_trunc_def ONE_THIRD_def ONE_SIXTH_def TWO_THIRD_def
lemmas hex_eval = hsl_to_hex_def format_02x_def hex_char_def
  hex_digits.simps[of "numeral n" for n] hex_digits.simps[of 0] hex_digits.simps[of 1]

lemma hsl_red: "hex_to_hsl ''#FF0000'' = Inr (0, 1/2, 1)"
  by (simp add: hex_to_hsl_def str_eval col_eval fl_eval cong: let_weak_cong)

lemma harmonies_red_analogous:
  "harmonies ''analogous'' ''#FF0000'' 0 (1/2) 1 = [''#FF0000'', ''#ff7e00'', ''#ff007e'']"
  by (simp add: harmonies_def hex_eval col_eval fl_eval cong: let_weak_cong)

lemma harmonies_spec_red_analogous:
  "harmonies_spec ''analogous'' ''#FF0000'' 0 (1/2) 1 = [''#FF0000'', ''#ff7f00'', ''#ff007f'']"
  by (simp add: harmonies_spec_def hex_eval col_eval fl_eval cong: let_weak_cong)

lemma harmonies_well_formed:
  assumes "well_formed_hex seed" "0 \<le> l" "l \<le> 1" "0 \<le> s" "s \<le> 1"
  shows "list_all well_formed_hex (harmonies t seed h l s)"
  using assms by (simp add: harmonies_def Let_def hsl_to_hex_well_formed)

lemma variants_spec_well_formed:
  assumes "well_formed_hex c"
  shows "\<exists>h l s. hex_to_hsl c = Inr (h, l, s)
           \<and> variants_spec c = [c, lighten_spec h l s, darken_spec h l s]"
  using hex_to_hsl_well_formed[OF assms] by (auto simp: variants_spec_def)

lemma variations_well_formed:
  assumes "list_all well_formed_hex cs"
  shows "variations cs = Inr (concat (map variants_spec cs))"
  using assms
proof (induction cs)
  case Nil
  then show ?case by simp
next
  case (Cons c cs)
  then have wf: "well_formed_hex c" and rest: "variations cs = Inr (concat (map variants_spec cs))"
    by simp_all
  from variants_spec_well_formed[OF wf] obtain h l s
    where "hex_to_hsl c = Inr (h, l, s)"
      and "variants_spec c = [c, lighten_spec h l s, darken_spec h l s]" by blast
  then show ?case
    by (simp add: rest lighten_spec_def darken_spec_def)
qed

lemma generate_well_formed:
  assumes "well_formed_hex seed" and "hex_to_hsl seed = Inr (h, l, s)"
  shows "generate_harmony_palette (seed # rest) t =
           Inr (remdups (concat (map variants_spec (harmonies t seed h l s))))"
proof -
  from hex_to_hsl_well_formed[OF assms(1)] assms(2)
  have "0 \<le> l" "l \<le> 1" "0 \<le> s" "s \<le> 1" by auto
  from variations_well_formed[OF harmonies_well_formed[OF assms(1) this]]
  show ?thesis by (simp add: generate_harmony_palette_def assms(2))
qed

subsection \<open>Empty input\<close>

text \<open>The guard at the head of the function returns the empty list; it raises nothing.\<close>

theorem empty_base_colors_returns_empty_counterexample:
  "generate_harmony_palette [] ''complementary'' = Inr []
   \<and> \<not> isl (generate_harmony_palette [] ''complementary'')"
  by (simp add: generate_harmony_palette_def)

text \<open>
  Claim C5, amended. Called with an empty list of base colours,
  \<open>generate_harmony_palette\<close> returns the empty list for every scheme value; it does not
  fail.
\<close>

theorem empty_base_colors_returns_empty:
  "generate_harmony_palette [] harmony_type = Inr []"
  by (simp add: generate_harmony_palette_def)

subsection \<open>Unknown scheme\<close>

lemma harmonies_unknown:
  assumes "t \<noteq> ''complementary''" "t \<noteq> ''analogous''" "t \<noteq> ''triadic''"
    "t \<noteq> ''split_complementary''"
  shows "harmonies t seed h l s = []"
  using assms by (simp add: harmonies_def)

text \<open>The \<open>if\<close>/\<open>elif\<close> chain has no \<open>else\<close>: an unknown scheme leaves \<open>harmonies\<close>
  empty and the function returns the empty list.\<close>

theorem unknown_scheme_returns_empty_counterexample:
  "generate_harmony_palette [''#FF0000''] ''tetradic'' = Inr []
   \<and> \<not> isl (generate_harmony_palette [''#FF0000''] ''tetradic'')"
  by (simp add: generate_harmony_palette_def hsl_red harmonies_def)

text \<open>
  Claim C9, amended. Called with a list whose first element is a well-formed colour and
  with a scheme value that is none of complementary, analogous, triadic and
  split\_complementary, \<open>generate_harmony_palette\<close> returns the empty list; it raises no
  error.
\<close>

theorem unknown_scheme_returns_empty:
  assumes "well_formed_hex seed"
    and "t \<notin> {''complementary'', ''analogous'', ''triadic'', ''split_complementary''}"
  shows "generate_harmony_palette (seed # rest) t = Inr []"
proof -
  from hex_to_hsl_well_formed[OF assms(1)] obtain h l s
    where "hex_to_hsl seed = Inr (h, l, s)" by blast
  moreover have "harmonies t seed h l s = []"
    using assms(2) by (intro harmonies_unknown) simp_all
  ultimately show ?thesis by (simp add: generate_harmony_palette_def)
qed

lemma well_formed_red: "well_formed_hex ''#FF0000''"
  by (simp add: well_formed_hex_def is_hex_digit_def hex_value_def)

theorem unknown_scheme_returns_empty_witness:
  "well_formed_hex ''#FF0000''
   \<and> ''x'' \<notin> {''complementary'', ''analogous'', ''triadic'', ''split_complementary''}
   \<and> generate_harmony_palette [''#FF0000'', ''#00FF00''] ''x'' = Inr []"
proof -
  have a: "''x'' \<notin> {''complementary'', ''analogous'', ''triadic'', ''split_complementary''}"
    by simp
  from unknown_scheme_returns_empty[OF well_formed_red a, of "[''#00FF00'']"] well_formed_red a
  show ?thesis by (intro conjI)
qed

subsection \<open>What \<open>hex_to_hsl\<close> accepts\<close>











subsection \<open>The scheme step\<close>

lemma well_formed_336699: "well_formed_hex ''#336699''"
  by (simp add: well_formed_hex_def is_hex_digit_def hex_value_def)

lemma variants_spec_head:
  assumes "well_formed_hex c"
  shows "c \<in> set (variants_spec c)"
  using variants_spec_well_formed[OF assms] by auto

lemma harmonies_in_palette:
  assumes "well_formed_hex seed" and "hex_to_hsl seed = Inr (h, l, s)"
  shows "set (harmonies t seed h l s)
           \<subseteq> set (remdups (concat (map variants_spec (harmonies t seed h l s))))"
proof -
  from hex_to_hsl_well_formed[OF assms(1)] assms(2)
  have "0 \<le> l" "l \<le> 1" "0 \<le> s" "s \<le> 1" by auto
  from harmonies_well_formed[OF assms(1) this, of t h]
  have "\<forall>c \<in> set (harmonies t seed h l s). well_formed_hex c" by (simp add: list_all_iff)
  then show ?thesis using variants_spec_head by auto
qed

text \<open>
  Claim C3, amended. For a list whose first element is a well-formed colour, only that
  element is used, and the scheme step gives: complementary, the seed and the hue plus
  0.5; analogous, the seed and the hue plus and minus 0.083; triadic, the seed and the hue
  plus 0.333 and plus 0.667; split\_complementary, the seed and the complement hue plus and
  minus 0.083, every hue taken \<open>% 1.0\<close>, at the lightness and saturation of the seed. The
  complementary and triadic lists are those of the specification. All these colours are
  in the palette returned.
\<close>

theorem harmony_scheme_offsets:
  assumes "well_formed_hex seed"
  shows "\<exists>h l s xs.
      hex_to_hsl seed = Inr (h, l, s)
    \<and> generate_harmony_palette (seed # rest) t = generate_harmony_palette [seed] t
    \<and> generate_harmony_palette (seed # rest) t = Inr xs
    \<and> set (harmonies t seed h l s) \<subseteq> set xs
    \<and> harmonies ''complementary'' seed h l s = [seed, hsl_to_hex (fmod1 (fadd h (1/2))) l s]
    \<and> harmonies ''analogous'' seed h l s =
        [seed, hsl_to_hex (fmod1 (fadd h (fl (83/1000)))) l s,
               hsl_to_hex (fmod1 (fsub h (fl (83/1000)))) l s]
    \<and> harmonies ''triadic'' seed h l s =
        [seed, hsl_to_hex (fmod1 (fadd h (fl (333/1000)))) l s,
               hsl_to_hex (fmod1 (fadd h (fl (667/1000)))) l s]
    \<and> harmonies ''split_complementary'' seed h l s =
        [seed, hsl_to_hex (fmod1 (fadd (fmod1 (fadd h (1/2))) (fl (83/1000)))) l s,
               hsl_to_hex (fmod1 (fsub (fmod1 (fadd h (1/2))) (fl (83/1000)))) l s]
    \<and> harmonies ''complementary'' seed h l s = harmonies_spec ''complementary'' seed h l s
    \<and> harmonies ''triadic'' seed h l s = harmonies_spec ''triadic'' seed h l s"
proof -
  from hex_to_hsl_well_formed[OF assms] obtain h l s
    where hls: "hex_to_hsl seed = Inr (h, l, s)" by blast
  note g = generate_well_formed[OF assms hls]
  have same: "generate_harmony_palette (seed # rest) t = generate_harmony_palette [seed] t"
    unfolding g[of rest t] g[of "[]" t] ..
  show ?thesis
    by (intro exI[of _ h] exI[of _ l] exI[of _ s]
          exI[of _ "remdups (concat (map variants_spec (harmonies t seed h l s)))"]
          conjI hls same g harmonies_in_palette[OF assms hls])
       (simp_all add: harmonies_def harmonies_spec_def Let_def)
qed

theorem harmony_scheme_offsets_witness:
  "well_formed_hex ''#FF0000''
   \<and> (\<exists>xs. generate_harmony_palette [''#FF0000'', ''#123456''] ''analogous'' = Inr xs
          \<and> {''#FF0000'', ''#ff7e00'', ''#ff007e''} \<subseteq> set xs)"
proof -
  from harmony_scheme_offsets[OF well_formed_red, of "[''#123456'']" "''analogous''"]
  obtain h l s xs where hls: "hex_to_hsl ''#FF0000'' = Inr (h, l, s)"
    and x: "generate_harmony_palette [''#FF0000'', ''#123456''] ''analogous'' = Inr xs"
    and sub: "set (harmonies ''analogous'' ''#FF0000'' h l s) \<subseteq> set xs"
    by (elim exE conjE)
  from hls have "h = 0" "l = 1/2" "s = 1" unfolding hsl_red by simp_all
  with sub have "set (harmonies ''analogous'' ''#FF0000'' 0 (1/2) 1) \<subseteq> set xs"
    by (simp only:)
  then have "{''#FF0000'', ''#ff7e00'', ''#ff007e''} \<subseteq> set xs"
    unfolding harmonies_red_analogous by simp
  with x well_formed_red show ?thesis by (intro conjI exI[of _ xs])
qed

text \<open>With the offset 0.0833 of the specification the analogous colours of red would be
  \<open>#ff7f00\<close> and \<open>#ff007f\<close>; the code computes \<open>#ff7e00\<close> and \<open>#ff007e\<close>.\<close>

theorem harmony_scheme_offsets_counterexample:
  "well_formed_hex ''#FF0000'' \<and> hex_to_hsl ''#FF0000'' = Inr (0, 1/2, 1)
   \<and> harmonies ''analogous'' ''#FF0000'' 0 (1/2) 1 = [''#FF0000'', ''#ff7e00'', ''#ff007e'']
   \<and> harmonies_spec ''analogous'' ''#FF0000'' 0 (1/2) 1 = [''#FF0000'', ''#ff7f00'', ''#ff007f'']
   \<and> harmonies ''analogous'' ''#FF0000'' 0 (1/2) 1
       \<noteq> harmonies_spec ''analogous'' ''#FF0000'' 0 (1/2) 1"
  unfolding harmonies_red_analogous harmonies_spec_red_analogous
  by (intro conjI well_formed_red hsl_red refl) simp


subsection \<open>The lightness variants\<close>

lemma hsl_00feff:
  "hsl_to_hex (fmod1 (fadd 0 (1/2))) (1/2) 1 = ''#00feff''"
  by (simp add: hex_eval col_eval fl_eval cong: let_weak_cong)

lemma harmonies_red_complementary:
  "harmonies ''complementary'' ''#FF0000'' 0 (1/2) 1 = [''#FF0000'', ''#00feff'']"
  by (simp add: harmonies_def hsl_00feff)

lemma hsl_cyan: "hex_to_hsl ''#00feff'' = Inr (281842917856683 / 562949953421312, 1/2, 1)"
  by (simp add: hex_to_hsl_def str_eval col_eval fl_eval cong: let_weak_cong)

lemma lightness_steps:
  "min (fadd (1/2) (fl (1/5))) 1 = 3152519739159347 / 4503599627370496"
  "max (fsub (1/2) (fl (1/5))) 0 = 5404319552844595 / 18014398509481984"
  by (simp_all add: fadd_def fsub_def fl_eval)

lemma variants_red: "variants_spec ''#FF0000'' = [''#FF0000'', ''#ff6565'', ''#990000'']"
proof -
  have "hsl_to_hex 0 (3152519739159347 / 4503599627370496) 1 = ''#ff6565''"
    by (simp add: hex_eval col_eval fl_eval cong: let_weak_cong)
  moreover have "hsl_to_hex 0 (5404319552844595 / 18014398509481984) 1 = ''#990000''"
    by (simp add: hex_eval col_eval fl_eval cong: let_weak_cong)
  ultimately show ?thesis
    by (simp add: variants_spec_def hsl_red lighten_spec_def darken_spec_def lightness_steps)
qed

lemma variants_cyan: "variants_spec ''#00feff'' = [''#00feff'', ''#65feff'', ''#009899'']"
proof -
  have "hsl_to_hex (281842917856683 / 562949953421312) (3152519739159347 / 4503599627370496) 1
          = ''#65feff''"
    by (simp add: hex_eval col_eval fl_eval cong: let_weak_cong)
  moreover
  have "hsl_to_hex (281842917856683 / 562949953421312) (5404319552844595 / 18014398509481984) 1
          = ''#009899''"
    by (simp add: hex_eval col_eval fl_eval cong: let_weak_cong)
  ultimately show ?thesis
    by (simp add: variants_spec_def hsl_cyan lighten_spec_def darken_spec_def lightness_steps)
qed

lemma harmonies_length:
  "length (harmonies ''complementary'' seed h l s) = 2"
  "length (harmonies ''analogous'' seed h l s) = 3"
  "length (harmonies ''triadic'' seed h l s) = 3"
  "length (harmonies ''split_complementary'' seed h l s) = 3"
  by (simp_all add: harmonies_def Let_def)

lemma variants_length:
  assumes "list_all well_formed_hex cs"
  shows "length (concat (map variants_spec cs)) = 3 * length cs"
  using assms
proof (induction cs)
  case Nil
  then show ?case by simp
next
  case (Cons c cs)
  then have "well_formed_hex c" by simp
  from variants_spec_well_formed[OF this] have "length (variants_spec c) = 3" by auto
  with Cons show ?case by simp
qed

text \<open>
  Claim C4. For a list whose first element is a well-formed colour, every colour of the
  scheme step is parsed without error and contributes three variants: itself, the colour
  at its hue and saturation with its lightness plus 0.2, at most 1, and the one with its
  lightness minus 0.2, at least 0. The loop collects these in order, and the function
  returns them without duplicates. For the complementary scheme the collection has six
  entries before duplicates are removed, and the colour at the hue plus 0.5, at the
  lightness and saturation of the seed, is in the result.
\<close>

theorem lightness_variants:
  assumes "well_formed_hex seed"
  shows "\<exists>h l s xs.
      hex_to_hsl seed = Inr (h, l, s)
    \<and> variations (harmonies t seed h l s)
        = Inr (concat (map variants_spec (harmonies t seed h l s)))
    \<and> (\<forall>c \<in> set (harmonies t seed h l s). \<exists>h' l' s'.
          hex_to_hsl c = Inr (h', l', s')
        \<and> variants_spec c = [c, hsl_to_hex h' (min (fadd l' (fl (1/5))) 1) s',
                                 hsl_to_hex h' (max (fsub l' (fl (1/5))) 0) s'])
    \<and> generate_harmony_palette (seed # rest) t = Inr xs
    \<and> distinct xs
    \<and> set xs = (\<Union>c \<in> set (harmonies t seed h l s). set (variants_spec c))
    \<and> (t = ''complementary'' \<longrightarrow>
          length (concat (map variants_spec (harmonies t seed h l s))) = 6
        \<and> hsl_to_hex (fmod1 (fadd h (1/2))) l s \<in> set xs)"
proof -
  from hex_to_hsl_well_formed[OF assms] obtain h l s
    where hls: "hex_to_hsl seed = Inr (h, l, s)"
      and r: "0 \<le> l" "l \<le> 1" "0 \<le> s" "s \<le> 1" by blast
  let ?hs = "harmonies t seed h l s"
  let ?xs = "remdups (concat (map variants_spec ?hs))"
  have wf: "list_all well_formed_hex ?hs" by (rule harmonies_well_formed[OF assms r])
  have 1: "variations ?hs = Inr (concat (map variants_spec ?hs))"
    by (rule variations_well_formed[OF wf])
  have 2: "\<forall>c \<in> set ?hs. \<exists>h' l' s'.
          hex_to_hsl c = Inr (h', l', s')
        \<and> variants_spec c = [c, hsl_to_hex h' (min (fadd l' (fl (1/5))) 1) s',
                                 hsl_to_hex h' (max (fsub l' (fl (1/5))) 0) s']"
  proof
    fix c assume "c \<in> set ?hs"
    with wf have "well_formed_hex c" by (simp add: list_all_iff)
    from variants_spec_well_formed[OF this]
    show "\<exists>h' l' s'. hex_to_hsl c = Inr (h', l', s')
        \<and> variants_spec c = [c, hsl_to_hex h' (min (fadd l' (fl (1/5))) 1) s',
                                 hsl_to_hex h' (max (fsub l' (fl (1/5))) 0) s']"
      by (simp add: lighten_spec_def darken_spec_def)
  qed
  have 3: "generate_harmony_palette (seed # rest) t = Inr ?xs"
    by (rule generate_well_formed[OF assms hls])
  have 4: "distinct ?xs" by simp
  have 5: "set ?xs = (\<Union>c \<in> set ?hs. set (variants_spec c))" by simp
  have 6: "t = ''complementary'' \<longrightarrow>
          length (concat (map variants_spec ?hs)) = 6
        \<and> hsl_to_hex (fmod1 (fadd h (1/2))) l s \<in> set ?xs"
  proof
    assume t: "t = ''complementary''"
    have "length (concat (map variants_spec ?hs)) = 3 * length ?hs"
      by (rule variants_length[OF wf])
    then have a: "length (concat (map variants_spec ?hs)) = 6"
      unfolding t harmonies_length by simp
    have "hsl_to_hex (fmod1 (fadd h (1/2))) l s \<in> set ?hs"
      unfolding t by (simp add: harmonies_def Let_def)
    with harmonies_in_palette[OF assms hls, of t]
    have "hsl_to_hex (fmod1 (fadd h (1/2))) l s \<in> set ?xs" by blast
    with a show "length (concat (map variants_spec ?hs)) = 6
        \<and> hsl_to_hex (fmod1 (fadd h (1/2))) l s \<in> set ?xs" ..
  qed
  show ?thesis
    by (intro exI[of _ h] exI[of _ l] exI[of _ s] exI[of _ ?xs] conjI hls 1 2 3 4 5 6)
qed

text \<open>Red and the complementary scheme: six colours, none twice; the complement computed in
  floats is \<open>#00feff\<close>.\<close>

theorem lightness_variants_witness:
  "well_formed_hex ''#FF0000''
   \<and> variations (harmonies ''complementary'' ''#FF0000'' 0 (1/2) 1)
       = Inr [''#FF0000'', ''#ff6565'', ''#990000'', ''#00feff'', ''#65feff'', ''#009899'']
   \<and> (\<exists>xs. generate_harmony_palette [''#FF0000''] ''complementary'' = Inr xs
         \<and> distinct xs
         \<and> set xs = {''#00feff'', ''#65feff'', ''#009899'', ''#FF0000'', ''#ff6565'', ''#990000''})"
proof -
  from lightness_variants[OF well_formed_red, of "''complementary''" "[]"]
  obtain h l s xs where hls: "hex_to_hsl ''#FF0000'' = Inr (h, l, s)"
    and v: "variations (harmonies ''complementary'' ''#FF0000'' h l s)
        = Inr (concat (map variants_spec (harmonies ''complementary'' ''#FF0000'' h l s)))"
    and g: "generate_harmony_palette [''#FF0000''] ''complementary'' = Inr xs"
    and d: "distinct xs"
    and s: "set xs = (\<Union>c \<in> set (harmonies ''complementary'' ''#FF0000'' h l s).
                         set (variants_spec c))"
    by (elim exE conjE)
  from hls have e: "h = 0" "l = 1/2" "s = 1" unfolding hsl_red by simp_all
  have v': "variations (harmonies ''complementary'' ''#FF0000'' 0 (1/2) 1)
       = Inr [''#FF0000'', ''#ff6565'', ''#990000'', ''#00feff'', ''#65feff'', ''#009899'']"
    using v unfolding e harmonies_red_complementary by (simp add: variants_red variants_cyan)
  have s': "set xs = {''#00feff'', ''#65feff'', ''#009899'', ''#FF0000'', ''#ff6565'', ''#990000''}"
    using s unfolding e harmonies_red_complementary by (simp add: variants_red variants_cyan)
  from g d s' have "\<exists>xs. generate_harmony_palette [''#FF0000''] ''complementary'' = Inr xs
         \<and> distinct xs
         \<and> set xs = {''#00feff'', ''#65feff'', ''#009899'', ''#FF0000'', ''#ff6565'', ''#990000''}"
    by (intro exI[of _ xs] conjI)
  with well_formed_red v' show ?thesis by (intro conjI)
qed


subsection \<open>The seed is in the palette\<close>

lemma seed_in_harmonies:
  assumes "t \<in> {''complementary'', ''analogous'', ''triadic'', ''split_complementary''}"
  shows "seed \<in> set (harmonies t seed h l s)"
  using assms by (auto simp: harmonies_def Let_def)

text \<open>
  Claim C10. For a list whose first element is a well-formed colour and for each of the
  four schemes, \<open>generate_harmony_palette\<close> returns a list that has this first element,
  the string as it was passed, among its elements.
\<close>

theorem seed_in_palette:
  assumes "well_formed_hex seed"
    and "t \<in> {''complementary'', ''analogous'', ''triadic'', ''split_complementary''}"
  shows "\<exists>xs. generate_harmony_palette (seed # rest) t = Inr xs \<and> seed \<in> set xs"
proof -
  from hex_to_hsl_well_formed[OF assms(1)] obtain h l s
    where hls: "hex_to_hsl seed = Inr (h, l, s)" by blast
  from harmonies_in_palette[OF assms(1) hls, of t] seed_in_harmonies[OF assms(2), of seed h l s]
  have "seed \<in> set (remdups (concat (map variants_spec (harmonies t seed h l s))))" by blast
  with generate_well_formed[OF assms(1) hls, of rest t] show ?thesis by blast
qed

theorem seed_in_palette_witness:
  "well_formed_hex ''#336699''
   \<and> ''triadic'' \<in> {''complementary'', ''analogous'', ''triadic'', ''split_complementary''}
   \<and> (\<exists>xs. generate_harmony_palette [''#336699'', ''#FFFFFF''] ''triadic'' = Inr xs
          \<and> ''#336699'' \<in> set xs)"
proof -
  have t: "''triadic'' \<in> {''complementary'', ''analogous'', ''triadic'', ''split_complementary''}"
    by simp
  from seed_in_palette[OF well_formed_336699 t, of "[''#FFFFFF'']"] well_formed_336699 t
  show ?thesis by (intro conjI)
qed

subsection \<open>The round trip \<open>hsl_to_hex\<close> after \<open>hex_to_hsl\<close>\<close>

text \<open>
  In double arithmetic \<open>hls_to_rgb\<close> does not invert \<open>rgb_to_hls\<close> exactly. The
  lemmas below bound the rounding error of each step: one operation on values below 1000
  is exact up to \<open>10\<^sup>-\<^sup>9\<close>, and two channels of the grid \<open>k / 255\<close> are equal or
  at least \<open>1 / 256\<close> apart, which bounds the divisions by \<open>rangec\<close>, \<open>sumc\<close> and
  \<open>2.0 - maxc - minc\<close>.
\<close>

subsubsection \<open>Errors of products, quotients and \<open>% 1.0\<close>\<close>

lemma mult_close:
  fixes a b a' b' :: rat
  assumes "\<bar>a - a'\<bar> \<le> ea" "\<bar>b - b'\<bar> \<le> eb" "\<bar>a'\<bar> \<le> A" "\<bar>b\<bar> \<le> B"
  shows "\<bar>a * b - a' * b'\<bar> \<le> ea * B + A * eb"
proof -
  have eq: "a * b - a' * b' = (a - a') * b + a' * (b - b')" by (simp add: algebra_simps)
  have 1: "\<bar>(a - a') * b\<bar> \<le> ea * B"
    unfolding abs_mult using assms by (intro mult_mono) auto
  have 2: "\<bar>a' * (b - b')\<bar> \<le> A * eb"
    unfolding abs_mult using assms by (intro mult_mono) auto
  have "\<bar>(a - a') * b + a' * (b - b')\<bar> \<le> \<bar>(a - a') * b\<bar> + \<bar>a' * (b - b')\<bar>"
    by (rule abs_triangle_ineq)
  with 1 2 show ?thesis unfolding eq by linarith
qed

lemma div_close:
  fixes x y xf yf e :: rat
  assumes "\<bar>xf - x\<bar> \<le> e" "\<bar>yf - y\<bar> \<le> e" "0 \<le> x" "x \<le> y" "1 / 256 \<le> y"
    and "e \<le> 1 / 100000"
  shows "\<bar>xf / yf - x / y\<bar> \<le> 514 * e"
proof -
  have e: "0 \<le> e" using assms(1) by linarith
  have yf: "1 / 257 \<le> yf" using assms(2,5,6) by linarith
  have y0: "0 < y" "0 < yf" using assms(5) yf by linarith+
  have eq: "xf / yf - x / y = ((xf - x) * y - x * (yf - y)) / (yf * y)"
    using y0 by (simp add: field_simps)
  have 1: "\<bar>(xf - x) * y\<bar> \<le> e * y"
    unfolding abs_mult using assms y0 by (intro mult_mono) auto
  have "\<bar>x * (yf - y)\<bar> \<le> y * e"
    unfolding abs_mult using assms y0 by (intro mult_mono) auto
  then have 2: "\<bar>x * (yf - y)\<bar> \<le> e * y" by (simp only: mult.commute)
  have "\<bar>(xf - x) * y - x * (yf - y)\<bar> \<le> \<bar>(xf - x) * y\<bar> + \<bar>x * (yf - y)\<bar>"
    by (rule abs_triangle_ineq4)
  with 1 2 have num: "\<bar>(xf - x) * y - x * (yf - y)\<bar> \<le> 2 * e * y" by linarith
  have "\<bar>xf / yf - x / y\<bar> = \<bar>(xf - x) * y - x * (yf - y)\<bar> / (yf * y)"
    unfolding eq using y0 by (simp add: abs_mult)
  also have "\<dots> \<le> (2 * e * y) / (yf * y)"
    using num y0 by (intro divide_right_mono) auto
  also have "\<dots> = 2 * e / yf" using y0 by simp
  also have "\<dots> \<le> 2 * e / (1 / 257)"
    using e yf by (intro divide_left_mono) auto
  also have "\<dots> = 514 * e" by simp
  finally show ?thesis .
qed

lemma fl_close: "\<bar>x\<bar> \<le> 1000 \<Longrightarrow> \<bar>fl x - x\<bar> \<le> 1 / 1000000000"
  by (rule fl_err_small)

lemma fmod1_cases:
  assumes "- 1 < z" "z < 2"
  shows "(0 \<le> z \<and> z < 1 \<and> fmod1 z = z) \<or> (1 \<le> z \<and> fmod1 z = z - 1)
         \<or> (z < 0 \<and> fmod1 z = fl (z + 1))"
proof -
  consider "z < 0" | "0 \<le> z" "z < 1" | "1 \<le> z" by linarith
  then show ?thesis
  proof cases
    case 1
    with assms have "\<lceil>z\<rceil> = 0" by (simp add: ceiling_eq_iff)
    with 1 show ?thesis by (simp add: fmod1_def py_trunc_def Let_def)
  next
    case 2
    then have "\<lfloor>z\<rfloor> = 0" by (simp add: floor_eq_iff)
    with 2 show ?thesis by (simp add: fmod1_def py_trunc_def Let_def)
  next
    case 3
    with assms have "\<lfloor>z\<rfloor> = 1" by (simp add: floor_eq_iff)
    with 3 show ?thesis by (simp add: fmod1_def py_trunc_def Let_def)
  qed
qed

lemma fmod1_shift:
  assumes "- 1 < z" "z < 2"
  shows "\<exists>n::int. \<bar>fmod1 z - z - of_int n\<bar> \<le> 1 / 1000000000"
proof -
  from fmod1_cases[OF assms]
  consider "fmod1 z = z" | "fmod1 z = z - 1" | "z < 0" "fmod1 z = fl (z + 1)" by blast
  then show ?thesis
  proof cases
    case 1
    then have "\<bar>fmod1 z - z - of_int 0\<bar> \<le> 1 / 1000000000" by simp
    then show ?thesis by blast
  next
    case 2
    then have "\<bar>fmod1 z - z - of_int (- 1)\<bar> \<le> 1 / 1000000000" by simp
    then show ?thesis by blast
  next
    case 3
    have "\<bar>fl (z + 1) - (z + 1)\<bar> \<le> 1 / 1000000000"
      using assms by (intro fl_close) (simp add: abs_le_iff)
    moreover have "fl (z + 1) - (z + 1) = fmod1 z - z - of_int 1" using 3 by simp
    ultimately have "\<bar>fmod1 z - z - of_int 1\<bar> \<le> 1 / 1000000000" by (simp only:)
    then show ?thesis by blast
  qed
qed

subsubsection \<open>The bounds \<open>m1\<close> and \<open>m2\<close> of \<open>hls_to_rgb\<close>\<close>

lemma fl_close_of:
  assumes "\<bar>x - y\<bar> \<le> e" "\<bar>y\<bar> \<le> 10" "e \<le> 1"
  shows "\<bar>fl x - y\<bar> \<le> e + 1 / 1000000000"
proof -
  have "\<bar>x\<bar> \<le> 1000" using assms by linarith
  from fl_close[OF this] assms(1) show ?thesis by linarith
qed

lemma m2_low:
  fixes mx mn :: rat
  assumes "0 \<le> mn" "mx \<le> 1" "1 / 256 \<le> mx - mn"
    and l: "\<bar>l - (mx + mn) / 2\<bar> \<le> 2 / 1000000000"
    and sumc: "\<bar>sumc - (mx + mn)\<bar> \<le> 1 / 1000000000"
    and rangec: "\<bar>rangec - (mx - mn)\<bar> \<le> 1 / 1000000000"
  defines "s \<equiv> fl (rangec / sumc)"
  shows "\<bar>s - (mx - mn) / (mx + mn)\<bar> \<le> 515 / 1000000000"
    and "\<bar>fmul l (fadd 1 s) - mx\<bar> \<le> 523 / 1000000000"
proof -
  define L where "L = (mx + mn) / 2"
  define Q where "Q = (mx - mn) / (mx + mn)"
  have S: "1 / 256 \<le> mx + mn" "mx + mn \<le> 2" "mx - mn \<le> mx + mn" "0 \<le> mx - mn"
    using assms(1-3) by linarith+
  have L2: "2 * L = mx + mn" by (simp add: L_def)
  have q: "0 \<le> Q" "Q \<le> 1" unfolding Q_def using S by (simp_all add: divide_le_eq_1)
  have id: "L * (1 + Q) = mx" unfolding L_def Q_def using S by (simp add: field_simps)
  have l': "\<bar>l - L\<bar> \<le> 2 / 1000000000" using l unfolding L_def .
  have "\<bar>rangec / sumc - Q\<bar> \<le> 514 * (1 / 1000000000)"
    unfolding Q_def by (rule div_close[OF rangec sumc S(4) S(3) S(1)]) simp
  then have d: "\<bar>rangec / sumc - Q\<bar> \<le> 514 / 1000000000" by linarith
  have qa: "\<bar>Q\<bar> \<le> 10" using q by linarith
  have "\<bar>fl (rangec / sumc) - Q\<bar> \<le> 514 / 1000000000 + 1 / 1000000000"
    by (rule fl_close_of[OF d qa]) simp
  then have s: "\<bar>s - Q\<bar> \<le> 515 / 1000000000" unfolding s_def by linarith
  then show "\<bar>s - (mx - mn) / (mx + mn)\<bar> \<le> 515 / 1000000000" unfolding Q_def .
  have s1: "\<bar>(1 + s) - (1 + Q)\<bar> \<le> 515 / 1000000000" using s by linarith
  have qb: "\<bar>1 + Q\<bar> \<le> 10" using q by linarith
  have "\<bar>fl (1 + s) - (1 + Q)\<bar> \<le> 515 / 1000000000 + 1 / 1000000000"
    by (rule fl_close_of[OF s1 qb]) simp
  then have b: "\<bar>fl (1 + s) - (1 + Q)\<bar> \<le> 516 / 1000000000" by linarith
  have B: "\<bar>fl (1 + s)\<bar> \<le> 3" using b q by linarith
  have A: "\<bar>L\<bar> \<le> 1" using S L2 by linarith
  have "\<bar>l * fl (1 + s) - L * (1 + Q)\<bar> \<le> 2 / 1000000000 * 3 + 1 * (516 / 1000000000)"
    by (rule mult_close[OF l' b A B])
  then have p: "\<bar>l * fl (1 + s) - mx\<bar> \<le> 522 / 1000000000" unfolding id by linarith
  have ma: "\<bar>mx\<bar> \<le> 10" using assms(1-3) by linarith
  have "\<bar>fl (l * fl (1 + s)) - mx\<bar> \<le> 522 / 1000000000 + 1 / 1000000000"
    by (rule fl_close_of[OF p ma]) simp
  then show "\<bar>fmul l (fadd 1 s) - mx\<bar> \<le> 523 / 1000000000"
    unfolding fmul_def fadd_def by linarith
qed

lemma m2_high:
  fixes mx mn :: rat
  assumes "0 \<le> mn" "mx \<le> 1" "1 / 256 \<le> mx - mn"
    and l: "\<bar>l - (mx + mn) / 2\<bar> \<le> 2 / 1000000000"
    and rangec: "\<bar>rangec - (mx - mn)\<bar> \<le> 1 / 1000000000"
  defines "df \<equiv> fsub (fsub 2 mx) mn"
  defines "s \<equiv> fl (rangec / df)"
  shows "1 / 257 \<le> df"
    and "\<bar>s - (mx - mn) / (2 - mx - mn)\<bar> \<le> 1029 / 1000000000"
    and "\<bar>fsub (fadd l s) (fmul l s) - mx\<bar> \<le> 2067 / 1000000000"
proof -
  define L where "L = (mx + mn) / 2"
  define Q where "Q = (mx - mn) / (2 - mx - mn)"
  have S: "1 / 256 \<le> mx + mn" "mx + mn \<le> 2" "0 \<le> mx - mn" "mx - mn \<le> 2 - mx - mn"
    "1 / 256 \<le> 2 - mx - mn" "2 - mx - mn \<le> 2"
    using assms(1-3) by linarith+
  have L2: "2 * L = mx + mn" by (simp add: L_def)
  have q: "0 \<le> Q" "Q \<le> 1" unfolding Q_def using S by (simp_all add: divide_le_eq_1)
  have Qd: "Q * (2 - mx - mn) = mx - mn" unfolding Q_def using S by simp
  have "L + Q - L * Q = L + Q * (2 - mx - mn) / 2" unfolding L_def by (simp add: field_simps)
  also have "\<dots> = mx" unfolding Qd L_def by (simp add: field_simps)
  finally have id: "L + Q - L * Q = mx" .
  have l': "\<bar>l - L\<bar> \<le> 2 / 1000000000" using l unfolding L_def .
  have A: "\<bar>L\<bar> \<le> 1" using S L2 by linarith
  have "\<bar>2 - mx\<bar> \<le> 1000" using assms(1-3) by linarith
  from fl_close[OF this]
  have f1: "\<bar>(fl (2 - mx) - mn) - (2 - mx - mn)\<bar> \<le> 1 / 1000000000" by linarith
  have da: "\<bar>2 - mx - mn\<bar> \<le> 10" using S by linarith
  have "\<bar>fl (fl (2 - mx) - mn) - (2 - mx - mn)\<bar> \<le> 1 / 1000000000 + 1 / 1000000000"
    by (rule fl_close_of[OF f1 da]) simp
  then have df: "\<bar>df - (2 - mx - mn)\<bar> \<le> 2 / 1000000000"
    unfolding df_def fsub_def by linarith
  show "1 / 257 \<le> df" using df S by linarith
  have r2: "\<bar>rangec - (mx - mn)\<bar> \<le> 2 / 1000000000" using rangec by linarith
  have "\<bar>rangec / df - Q\<bar> \<le> 514 * (2 / 1000000000)"
    unfolding Q_def by (rule div_close[OF r2 df S(3) S(4) S(5)]) simp
  then have d: "\<bar>rangec / df - Q\<bar> \<le> 1028 / 1000000000" by linarith
  have qa: "\<bar>Q\<bar> \<le> 10" using q by linarith
  have "\<bar>fl (rangec / df) - Q\<bar> \<le> 1028 / 1000000000 + 1 / 1000000000"
    by (rule fl_close_of[OF d qa]) simp
  then have s: "\<bar>s - Q\<bar> \<le> 1029 / 1000000000" unfolding s_def by linarith
  then show "\<bar>s - (mx - mn) / (2 - mx - mn)\<bar> \<le> 1029 / 1000000000" unfolding Q_def .
  have B: "\<bar>s\<bar> \<le> 2" using s q by linarith
  have a0: "\<bar>(l + s) - (L + Q)\<bar> \<le> 1031 / 1000000000" using l' s by linarith
  have lq: "\<bar>L + Q\<bar> \<le> 10" using A q by linarith
  have "\<bar>fl (l + s) - (L + Q)\<bar> \<le> 1031 / 1000000000 + 1 / 1000000000"
    by (rule fl_close_of[OF a0 lq]) simp
  then have a: "\<bar>fl (l + s) - (L + Q)\<bar> \<le> 1032 / 1000000000" by linarith
  have "\<bar>l * s - L * Q\<bar> \<le> 2 / 1000000000 * 2 + 1 * (1029 / 1000000000)"
    by (rule mult_close[OF l' s A B])
  then have p: "\<bar>l * s - L * Q\<bar> \<le> 1033 / 1000000000" by linarith
  have "\<bar>L * Q\<bar> \<le> 1 * 10" unfolding abs_mult using A qa by (intro mult_mono) auto
  then have pa: "\<bar>L * Q\<bar> \<le> 10" by linarith
  have "\<bar>fl (l * s) - L * Q\<bar> \<le> 1033 / 1000000000 + 1 / 1000000000"
    by (rule fl_close_of[OF p pa]) simp
  then have m: "\<bar>fl (l * s) - L * Q\<bar> \<le> 1034 / 1000000000" by linarith
  from a m have "\<bar>(fl (l + s) - fl (l * s)) - (L + Q - L * Q)\<bar> \<le> 2066 / 1000000000"
    by linarith
  then have t: "\<bar>(fl (l + s) - fl (l * s)) - mx\<bar> \<le> 2066 / 1000000000" unfolding id .
  have ma: "\<bar>mx\<bar> \<le> 10" using assms(1-3) by linarith
  have "\<bar>fl (fl (l + s) - fl (l * s)) - mx\<bar> \<le> 2066 / 1000000000 + 1 / 1000000000"
    by (rule fl_close_of[OF t ma]) simp
  then show "\<bar>fsub (fadd l s) (fmul l s) - mx\<bar> \<le> 2067 / 1000000000"
    unfolding fsub_def fadd_def fmul_def by linarith
qed

lemma m1_close:
  fixes mx mn :: rat
  assumes "0 \<le> mn" "mx \<le> 1" "mn \<le> mx"
    and l: "\<bar>l - (mx + mn) / 2\<bar> \<le> 2 / 1000000000"
    and m2: "\<bar>m2 - mx\<bar> \<le> 2067 / 1000000000"
  shows "\<bar>fsub (fmul 2 l) m2 - mn\<bar> \<le> 3 / 1000000"
proof -
  define L where "L = (mx + mn) / 2"
  have L2: "2 * L = mx + mn" by (simp add: L_def)
  have l': "\<bar>l - L\<bar> \<le> 2 / 1000000000" using l unfolding L_def .
  have a: "\<bar>2 * l - (mx + mn)\<bar> \<le> 4 / 1000000000" using l' L2 by linarith
  have sa: "\<bar>mx + mn\<bar> \<le> 10" using assms(1-3) by linarith
  have "\<bar>fl (2 * l) - (mx + mn)\<bar> \<le> 4 / 1000000000 + 1 / 1000000000"
    by (rule fl_close_of[OF a sa]) simp
  with m2 have b: "\<bar>(fl (2 * l) - m2) - mn\<bar> \<le> 2072 / 1000000000" by linarith
  have na: "\<bar>mn\<bar> \<le> 10" using assms(1-3) by linarith
  have "\<bar>fl (fl (2 * l) - m2) - mn\<bar> \<le> 2072 / 1000000000 + 1 / 1000000000"
    by (rule fl_close_of[OF b na]) simp
  then show ?thesis unfolding fsub_def fmul_def by linarith
qed

subsubsection \<open>The helper \<open>_v\<close> as a clamped tent function of the hue\<close>

lemma scale_close:
  fixes D t t' :: rat
  assumes "\<bar>D\<bar> \<le> 4" "\<bar>t - t'\<bar> \<le> e"
  shows "\<bar>D * t - D * t'\<bar> \<le> 4 * e"
proof -
  have "D * t - D * t' = D * (t - t')" by (simp add: algebra_simps)
  moreover have "\<bar>D * (t - t')\<bar> \<le> 4 * e"
    unfolding abs_mult using assms by (intro mult_mono) auto
  ultimately show ?thesis by simp
qed

lemma interpolate_close:
  fixes m1 m2 w w' :: rat
  assumes m: "\<bar>m1\<bar> \<le> 2" "\<bar>m2\<bar> \<le> 2"
    and w: "\<bar>w - w'\<bar> \<le> 2 / 1000000000" "0 \<le> w'" "w' \<le> 1"
  shows "\<bar>fadd m1 (fmul (fmul (fsub m2 m1) w) 6) - (m1 + (m2 - m1) * (6 * w'))\<bar>
           \<le> 70 / 1000000000"
proof -
  define D where "D = m2 - m1"
  define P where "P = D * w'"
  have D: "\<bar>D\<bar> \<le> 4" unfolding D_def using m by linarith
  have "\<bar>D\<bar> \<le> 1000" using D by linarith
  from fl_close[OF this] have Df: "\<bar>fl D - D\<bar> \<le> 1 / 1000000000" .
  have wa: "\<bar>w\<bar> \<le> 2" using w by linarith
  have "\<bar>fl D * w - D * w'\<bar> \<le> 1 / 1000000000 * 2 + 4 * (2 / 1000000000)"
    by (rule mult_close[OF Df w(1) D wa])
  then have p: "\<bar>fl D * w - P\<bar> \<le> 10 / 1000000000" unfolding P_def by linarith
  have "\<bar>D * w'\<bar> \<le> 4 * 1" unfolding abs_mult using D w by (intro mult_mono) auto
  then have Pa: "\<bar>P\<bar> \<le> 4" unfolding P_def by linarith
  then have Pb: "\<bar>P\<bar> \<le> 10" by linarith
  have "\<bar>fl (fl D * w) - P\<bar> \<le> 10 / 1000000000 + 1 / 1000000000"
    by (rule fl_close_of[OF p Pb]) simp
  then have p6: "\<bar>fl (fl D * w) * 6 - 6 * P\<bar> \<le> 66 / 1000000000" by linarith
  have Pc: "\<bar>6 * P\<bar> \<le> 1000" using Pa by linarith
  have "\<bar>fl (fl D * w) * 6\<bar> \<le> 1000" using p6 Pa by linarith
  from fl_close[OF this] p6
  have q: "\<bar>(m1 + fl (fl (fl D * w) * 6)) - (m1 + 6 * P)\<bar> \<le> 67 / 1000000000" by linarith
  have "\<bar>m1 + fl (fl (fl D * w) * 6)\<bar> \<le> 1000" using q Pa m by linarith
  from fl_close[OF this] q
  have r: "\<bar>fl (m1 + fl (fl (fl D * w) * 6)) - (m1 + 6 * P)\<bar> \<le> 68 / 1000000000"
    by linarith
  have eq: "m1 + 6 * P = m1 + D * (6 * w')" unfolding P_def by simp
  from r have "\<bar>fl (m1 + fl (fl (fl D * w) * 6)) - (m1 + D * (6 * w'))\<bar> \<le> 70 / 1000000000"
    unfolding eq by linarith
  then show ?thesis unfolding fadd_def fmul_def fsub_def D_def .
qed

lemma of_int_range:
  fixes K :: int
  assumes "of_int a - 1 < (of_int K :: rat)" "(of_int K :: rat) < of_int b + 1"
  shows "a \<le> K" "K \<le> b"
proof -
  have "(of_int (a - 1) :: rat) < of_int K" using assms(1) by simp
  then have "a - 1 < K" by (simp only: of_int_less_iff)
  then show "a \<le> K" by simp
  have "(of_int K :: rat) < of_int (b + 1)" using assms(2) by simp
  then have "K < b + 1" by (simp only: of_int_less_iff)
  then show "K \<le> b" by simp
qed

lemma of_int_zero:
  fixes K :: int
  assumes "- 1 < (of_int K :: rat)" "(of_int K :: rat) < 1"
  shows "K = 0"
proof -
  have "0 \<le> K" "K \<le> 0" using of_int_range[of 0 K 0] assms by simp_all
  then show ?thesis by simp
qed

lemma of_int_zero_one:
  fixes K :: int
  assumes "- 1 < (of_int K :: rat)" "(of_int K :: rat) < 2"
  shows "K = 0 \<or> K = 1"
proof -
  have "0 \<le> K" "K \<le> 1" using of_int_range[of 0 K 1] assms by simp_all
  then show ?thesis by auto
qed

lemma tent_max:
  fixes x y d :: rat and K :: int
  assumes "0 \<le> x" "x \<le> 1" "\<bar>x - y - of_int K\<bar> \<le> d" "d \<le> 1 / 1000"
    and "1 / 6 \<le> y" "y \<le> 1 / 2"
  shows "\<bar>max 0 (min 1 (min (6 * x) (4 - 6 * x))) - 1\<bar> \<le> 6 * d"
proof -
  have "- 1 < (of_int K :: rat)" "(of_int K :: rat) < 1" using assms by linarith+
  then have "K = 0" by (rule of_int_zero)
  then have "\<bar>x - y\<bar> \<le> d" using assms(3) by simp
  then show ?thesis using assms(1,2,4,5,6) by linarith
qed

lemma tent_next:
  fixes x q d :: rat and K :: int
  assumes "0 \<le> x" "x \<le> 1" "\<bar>x - q / 6 - of_int K\<bar> \<le> d" "d \<le> 1 / 1000"
    and "- 1 \<le> q" "q \<le> 1"
  shows "\<bar>max 0 (min 1 (min (6 * x) (4 - 6 * x))) - max 0 q\<bar> \<le> 6 * d"
proof -
  have "- 1 < (of_int K :: rat)" "(of_int K :: rat) < 2" using assms by linarith+
  then have "K = 0 \<or> K = 1" by (rule of_int_zero_one)
  then show ?thesis
  proof
    assume "K = 0"
    then have "\<bar>x - q / 6\<bar> \<le> d" using assms(3) by simp
    then show ?thesis using assms(1,2,4,5,6) by linarith
  next
    assume "K = 1"
    then have "\<bar>x - q / 6 - 1\<bar> \<le> d" using assms(3) by simp
    then show ?thesis using assms(1,2,4,5,6) by linarith
  qed
qed

lemma tent_prev:
  fixes x q d :: rat and K :: int
  assumes "0 \<le> x" "x \<le> 1" "\<bar>x - (q / 6 + 2 / 3) - of_int K\<bar> \<le> d" "d \<le> 1 / 1000"
    and "- 1 \<le> q" "q \<le> 1"
  shows "\<bar>max 0 (min 1 (min (6 * x) (4 - 6 * x))) - max 0 (- q)\<bar> \<le> 6 * d"
proof -
  have "- 1 < (of_int K :: rat)" "(of_int K :: rat) < 1" using assms by linarith+
  then have "K = 0" by (rule of_int_zero)
  then have "\<bar>x - (q / 6 + 2 / 3)\<bar> \<le> d" using assms(3) by simp
  then show ?thesis using assms(1,2,4,5,6) by linarith
qed

lemma v_hls_close:
  fixes m1 m2 :: rat
  assumes m: "\<bar>m1\<bar> \<le> 2" "\<bar>m2\<bar> \<le> 2"
  shows "\<bar>v_hls m1 m2 hue0
          - (m1 + (m2 - m1) * max 0 (min 1 (min (6 * fmod1 hue0) (4 - 6 * fmod1 hue0))))\<bar>
         \<le> 1 / 10000000"
proof -
  define hue where "hue = fmod1 hue0"
  define D where "D = m2 - m1"
  define T where "T = max 0 (min 1 (min (6 * hue) (4 - 6 * hue)))"
  have h: "0 \<le> hue" "hue \<le> 1" using fmod1_range[of hue0] by (simp_all add: hue_def)
  have D: "\<bar>D\<bar> \<le> 4" unfolding D_def using m by linarith
  have c6: "ONE_SIXTH \<le> 1 / 6" "1 / 6 - 1 / 1000000000 \<le> ONE_SIXTH"
    unfolding ONE_SIXTH_val by simp_all
  have c23: "TWO_THIRD \<le> 2 / 3" "2 / 3 - 1 / 1000000000 \<le> TWO_THIRD"
    unfolding TWO_THIRD_val by simp_all
  have goal: "\<bar>v_hls m1 m2 hue0 - (m1 + D * T)\<bar> \<le> 1 / 10000000"
  proof (cases "hue < ONE_SIXTH")
    case True
    then have v: "v_hls m1 m2 hue0 = fadd m1 (fmul (fmul (fsub m2 m1) hue) 6)"
      by (simp add: v_hls_def Let_def hue_def)
    have w: "\<bar>hue - hue\<bar> \<le> 2 / 1000000000" by simp
    have Teq: "T = 6 * hue" unfolding T_def using True c6 h by linarith
    have "\<bar>fadd m1 (fmul (fmul (fsub m2 m1) hue) 6) - (m1 + (m2 - m1) * T)\<bar>
            \<le> 70 / 1000000000"
      unfolding Teq by (rule interpolate_close[OF m w h])
    then show ?thesis unfolding v D_def by linarith
  next
    case F1: False
    show ?thesis
    proof (cases "hue < 1 / 2")
      case True
      with F1 have v: "v_hls m1 m2 hue0 = m2" by (simp add: v_hls_def Let_def hue_def)
      have "\<bar>1 - T\<bar> \<le> 6 / 1000000000" unfolding T_def using True F1 c6 h by linarith
      from scale_close[OF D this] have "\<bar>D * 1 - D * T\<bar> \<le> 4 * (6 / 1000000000)" .
      then have "\<bar>D - D * T\<bar> \<le> 24 / 1000000000" by simp
      then show ?thesis unfolding v D_def by linarith
    next
      case F2: False
      show ?thesis
      proof (cases "hue < TWO_THIRD")
        case True
        with F1 F2 have v: "v_hls m1 m2 hue0
            = fadd m1 (fmul (fmul (fsub m2 m1) (fsub TWO_THIRD hue)) 6)"
          by (simp add: v_hls_def Let_def hue_def)
        have "\<bar>TWO_THIRD - hue\<bar> \<le> 1000" using h c23 by linarith
        from fl_close[OF this] c23
        have w: "\<bar>fsub TWO_THIRD hue - (2 / 3 - hue)\<bar> \<le> 2 / 1000000000"
          unfolding fsub_def by linarith
        have w': "0 \<le> 2 / 3 - hue" "2 / 3 - hue \<le> 1" using True F2 c23 by linarith+
        have "T = 4 - 6 * hue" unfolding T_def using True F2 c23 by linarith
        then have Teq: "T = 6 * (2 / 3 - hue)" by simp
        have "\<bar>fadd m1 (fmul (fmul (fsub m2 m1) (fsub TWO_THIRD hue)) 6)
                - (m1 + (m2 - m1) * T)\<bar> \<le> 70 / 1000000000"
          unfolding Teq by (rule interpolate_close[OF m w w'])
        then show ?thesis unfolding v D_def by linarith
      next
        case False
        with F1 F2 have v: "v_hls m1 m2 hue0 = m1" by (simp add: v_hls_def Let_def hue_def)
        have "\<bar>0 - T\<bar> \<le> 6 / 1000000000" unfolding T_def using False c23 h by linarith
        from scale_close[OF D this] have "\<bar>D * 0 - D * T\<bar> \<le> 4 * (6 / 1000000000)" .
        then have "\<bar>D * T\<bar> \<le> 24 / 1000000000" by simp
        then show ?thesis unfolding v by linarith
      qed
    qed
  qed
  then show ?thesis unfolding D_def T_def hue_def .
qed

subsubsection \<open>The three hues\<close>

lemma shift_compose:
  fixes a b c :: rat and n n' :: int
  assumes "\<bar>a - b - of_int n\<bar> \<le> e1" "\<bar>b - c - of_int n'\<bar> \<le> e2" "e1 + e2 \<le> e"
  shows "\<exists>K::int. \<bar>a - c - of_int K\<bar> \<le> e"
proof -
  have "a - c - of_int (n + n') = (a - b - of_int n) + (b - c - of_int n')" by simp
  then have "\<bar>a - c - of_int (n + n')\<bar> \<le> e" using assms by linarith
  then show ?thesis by blast
qed

lemma hue_shift:
  fixes y p :: rat
  assumes y: "\<bar>y - p\<bar> \<le> 173 / 1000000000" and p: "- (1 / 6) \<le> p" "p \<le> 5 / 6"
  defines "h \<equiv> fmod1 y"
  shows "\<exists>K::int. \<bar>fmod1 (fadd h ONE_THIRD) - (p + 1 / 3) - of_int K\<bar> \<le> 2 / 10000000"
    and "\<exists>K::int. \<bar>fmod1 h - p - of_int K\<bar> \<le> 2 / 10000000"
    and "\<exists>K::int. \<bar>fmod1 (fsub h ONE_THIRD) - (p - 1 / 3) - of_int K\<bar> \<le> 2 / 10000000"
proof -
  have yr: "- 1 < y" "y < 2" using y p by linarith+
  from fmod1_shift[OF yr] obtain n :: int
    where n: "\<bar>h - y - of_int n\<bar> \<le> 1 / 1000000000" unfolding h_def by blast
  have hp: "\<bar>h - p - of_int n\<bar> \<le> 174 / 1000000000" using n y by linarith
  have h: "0 \<le> h" "h \<le> 1" using fmod1_range[of y] by (simp_all add: h_def)
  have c3: "ONE_THIRD \<le> 1 / 3" "1 / 3 - 1 / 1000000000 \<le> ONE_THIRD"
    unfolding ONE_THIRD_val by simp_all
  show "\<exists>K::int. \<bar>fmod1 (fadd h ONE_THIRD) - (p + 1 / 3) - of_int K\<bar> \<le> 2 / 10000000"
  proof -
    define z where "z = fadd h ONE_THIRD"
    have "\<bar>h + ONE_THIRD\<bar> \<le> 1000" using h c3 by linarith
    from fl_close[OF this] have z: "\<bar>z - (h + ONE_THIRD)\<bar> \<le> 1 / 1000000000"
      unfolding z_def fadd_def .
    have zr: "- 1 < z" "z < 2" using z h c3 by linarith+
    from fmod1_shift[OF zr] obtain n' :: int
      where n': "\<bar>fmod1 z - z - of_int n'\<bar> \<le> 1 / 1000000000" by blast
    have "\<bar>z - (p + 1 / 3) - of_int n\<bar> \<le> 176 / 1000000000" using z hp c3 by linarith
    have "\<exists>K::int. \<bar>fmod1 z - (p + 1 / 3) - of_int K\<bar> \<le> 2 / 10000000"
      by (rule shift_compose[OF n' \<open>\<bar>z - (p + 1 / 3) - of_int n\<bar> \<le> 176 / 1000000000\<close>]) simp
    then show ?thesis unfolding z_def .
  qed
  show "\<exists>K::int. \<bar>fmod1 h - p - of_int K\<bar> \<le> 2 / 10000000"
  proof -
    have hr: "- 1 < h" "h < 2" using h by linarith+
    from fmod1_shift[OF hr] obtain n' :: int
      where n': "\<bar>fmod1 h - h - of_int n'\<bar> \<le> 1 / 1000000000" by blast
    show ?thesis by (rule shift_compose[OF n' hp]) simp
  qed
  show "\<exists>K::int. \<bar>fmod1 (fsub h ONE_THIRD) - (p - 1 / 3) - of_int K\<bar> \<le> 2 / 10000000"
  proof -
    define z where "z = fsub h ONE_THIRD"
    have "\<bar>h - ONE_THIRD\<bar> \<le> 1000" using h c3 by linarith
    from fl_close[OF this] have z: "\<bar>z - (h - ONE_THIRD)\<bar> \<le> 1 / 1000000000"
      unfolding z_def fsub_def .
    have zr: "- 1 < z" "z < 2" using z h c3 by linarith+
    from fmod1_shift[OF zr] obtain n' :: int
      where n': "\<bar>fmod1 z - z - of_int n'\<bar> \<le> 1 / 1000000000" by blast
    have "\<bar>z - (p - 1 / 3) - of_int n\<bar> \<le> 176 / 1000000000" using z hp c3 by linarith
    have "\<exists>K::int. \<bar>fmod1 z - (p - 1 / 3) - of_int K\<bar> \<le> 2 / 10000000"
      by (rule shift_compose[OF n' \<open>\<bar>z - (p - 1 / 3) - of_int n\<bar> \<le> 176 / 1000000000\<close>]) simp
    then show ?thesis unfolding z_def .
  qed
qed

lemma v_max:
  fixes m1 m2 mx mn :: rat
  assumes m: "\<bar>m1 - mn\<bar> \<le> 3 / 1000000" "\<bar>m2 - mx\<bar> \<le> 3 / 1000000"
    and r: "0 \<le> mn" "mn \<le> mx" "mx \<le> 1"
    and K: "\<exists>K::int. \<bar>fmod1 hue0 - y - of_int K\<bar> \<le> 2 / 10000000"
    and y: "1 / 6 \<le> y" "y \<le> 1 / 2"
  shows "\<bar>v_hls m1 m2 hue0 - mx\<bar> \<le> 2 / 100000"
proof -
  define T where "T = max 0 (min 1 (min (6 * fmod1 hue0) (4 - 6 * fmod1 hue0)))"
  define D where "D = m2 - m1"
  have ma: "\<bar>m1\<bar> \<le> 2" "\<bar>m2\<bar> \<le> 2" using m r by linarith+
  have v: "\<bar>v_hls m1 m2 hue0 - (m1 + D * T)\<bar> \<le> 1 / 10000000"
    unfolding T_def D_def by (rule v_hls_close[OF ma])
  have h: "0 \<le> fmod1 hue0" "fmod1 hue0 \<le> 1" using fmod1_range[of hue0] by simp_all
  from K obtain K :: int where K: "\<bar>fmod1 hue0 - y - of_int K\<bar> \<le> 2 / 10000000" by blast
  have "\<bar>T - 1\<bar> \<le> 6 * (2 / 10000000)"
    unfolding T_def by (rule tent_max[OF h K _ y]) simp
  then have t: "\<bar>T - 1\<bar> \<le> 12 / 10000000" by linarith
  have D: "\<bar>D\<bar> \<le> 4" unfolding D_def using ma by linarith
  from scale_close[OF D t] have "\<bar>D * T - D * 1\<bar> \<le> 4 * (12 / 10000000)" .
  then have "\<bar>D * T - D\<bar> \<le> 48 / 10000000" by simp
  with v m show ?thesis unfolding D_def by linarith
qed

lemma v_scaled:
  fixes m1 m2 mx mn T t :: rat
  assumes m: "\<bar>m1 - mn\<bar> \<le> 3 / 1000000" "\<bar>m2 - mx\<bar> \<le> 3 / 1000000"
    and r: "0 \<le> mn" "mn \<le> mx" "mx \<le> 1"
    and v: "\<bar>v - (m1 + (m2 - m1) * T)\<bar> \<le> 1 / 10000000"
    and t: "\<bar>T - t\<bar> \<le> 12 / 10000000" "0 \<le> t" "t \<le> 1"
  shows "\<bar>v - (mn + (mx - mn) * t)\<bar> \<le> 2 / 100000"
proof -
  have a: "\<bar>(m2 - m1) - (mx - mn)\<bar> \<le> 6 / 1000000" using m by linarith
  have A: "\<bar>mx - mn\<bar> \<le> 1" using r by linarith
  have B: "\<bar>T\<bar> \<le> 2" using t by linarith
  have "\<bar>(m2 - m1) * T - (mx - mn) * t\<bar> \<le> 6 / 1000000 * 2 + 1 * (12 / 10000000)"
    by (rule mult_close[OF a t(1) A B])
  with v m show ?thesis by linarith
qed

lemma v_next:
  fixes m1 m2 mx mn :: rat
  assumes m: "\<bar>m1 - mn\<bar> \<le> 3 / 1000000" "\<bar>m2 - mx\<bar> \<le> 3 / 1000000"
    and r: "0 \<le> mn" "mn \<le> mx" "mx \<le> 1"
    and K: "\<exists>K::int. \<bar>fmod1 hue0 - q / 6 - of_int K\<bar> \<le> 2 / 10000000"
    and q: "- 1 \<le> q" "q \<le> 1"
  shows "\<bar>v_hls m1 m2 hue0 - (mn + (mx - mn) * max 0 q)\<bar> \<le> 2 / 100000"
proof -
  define T where "T = max 0 (min 1 (min (6 * fmod1 hue0) (4 - 6 * fmod1 hue0)))"
  have ma: "\<bar>m1\<bar> \<le> 2" "\<bar>m2\<bar> \<le> 2" using m r by linarith+
  have v: "\<bar>v_hls m1 m2 hue0 - (m1 + (m2 - m1) * T)\<bar> \<le> 1 / 10000000"
    unfolding T_def by (rule v_hls_close[OF ma])
  have h: "0 \<le> fmod1 hue0" "fmod1 hue0 \<le> 1" using fmod1_range[of hue0] by simp_all
  from K obtain K :: int where K: "\<bar>fmod1 hue0 - q / 6 - of_int K\<bar> \<le> 2 / 10000000"
    by blast
  have "\<bar>T - max 0 q\<bar> \<le> 6 * (2 / 10000000)"
    unfolding T_def by (rule tent_next[OF h K _ q]) simp
  then have t: "\<bar>T - max 0 q\<bar> \<le> 12 / 10000000" by linarith
  have t': "0 \<le> max 0 q" "max 0 q \<le> 1" using q by linarith+
  show ?thesis by (rule v_scaled[OF m r v t t'])
qed

lemma v_prev:
  fixes m1 m2 mx mn :: rat
  assumes m: "\<bar>m1 - mn\<bar> \<le> 3 / 1000000" "\<bar>m2 - mx\<bar> \<le> 3 / 1000000"
    and r: "0 \<le> mn" "mn \<le> mx" "mx \<le> 1"
    and K: "\<exists>K::int. \<bar>fmod1 hue0 - (q / 6 + 2 / 3) - of_int K\<bar> \<le> 2 / 10000000"
    and q: "- 1 \<le> q" "q \<le> 1"
  shows "\<bar>v_hls m1 m2 hue0 - (mn + (mx - mn) * max 0 (- q))\<bar> \<le> 2 / 100000"
proof -
  define T where "T = max 0 (min 1 (min (6 * fmod1 hue0) (4 - 6 * fmod1 hue0)))"
  have ma: "\<bar>m1\<bar> \<le> 2" "\<bar>m2\<bar> \<le> 2" using m r by linarith+
  have v: "\<bar>v_hls m1 m2 hue0 - (m1 + (m2 - m1) * T)\<bar> \<le> 1 / 10000000"
    unfolding T_def by (rule v_hls_close[OF ma])
  have h: "0 \<le> fmod1 hue0" "fmod1 hue0 \<le> 1" using fmod1_range[of hue0] by simp_all
  from K obtain K :: int
    where K: "\<bar>fmod1 hue0 - (q / 6 + 2 / 3) - of_int K\<bar> \<le> 2 / 10000000" by blast
  have "\<bar>T - max 0 (- q)\<bar> \<le> 6 * (2 / 10000000)"
    unfolding T_def by (rule tent_prev[OF h K _ q]) simp
  then have t: "\<bar>T - max 0 (- q)\<bar> \<le> 12 / 10000000" by linarith
  have t': "0 \<le> max 0 (- q)" "max 0 (- q) \<le> 1" using q by linarith+
  show ?thesis by (rule v_scaled[OF m r v t t'])
qed

lemma exact_next:
  fixes mx mn nx pv :: rat
  assumes "mn < mx" "mn = min nx pv"
  shows "mn + (mx - mn) * max 0 ((nx - pv) / (mx - mn)) = nx"
    and "mn + (mx - mn) * max 0 (- ((nx - pv) / (mx - mn))) = pv"
proof -
  have R: "0 < mx - mn" using assms(1) by simp
  have q: "(mx - mn) * ((nx - pv) / (mx - mn)) = nx - pv" using R by simp
  show "mn + (mx - mn) * max 0 ((nx - pv) / (mx - mn)) = nx"
  proof (cases "pv \<le> nx")
    case True
    then have "0 \<le> (nx - pv) / (mx - mn)" using R by simp
    then have "max 0 ((nx - pv) / (mx - mn)) = (nx - pv) / (mx - mn)" by simp
    then show ?thesis using q True assms(2) by simp
  next
    case False
    then have "(nx - pv) / (mx - mn) \<le> 0" using R by (simp add: divide_le_0_iff)
    then have "max 0 ((nx - pv) / (mx - mn)) = 0" by simp
    then show ?thesis using False assms(2) by simp
  qed
  show "mn + (mx - mn) * max 0 (- ((nx - pv) / (mx - mn))) = pv"
  proof (cases "pv \<le> nx")
    case True
    then have "0 \<le> (nx - pv) / (mx - mn)" using R by simp
    then have "max 0 (- ((nx - pv) / (mx - mn))) = 0" by simp
    then show ?thesis using True assms(2) by simp
  next
    case False
    then have "(nx - pv) / (mx - mn) \<le> 0" using R by (simp add: divide_le_0_iff)
    then have "max 0 (- ((nx - pv) / (mx - mn))) = - ((nx - pv) / (mx - mn))" by simp
    moreover have "(mx - mn) * (- ((nx - pv) / (mx - mn))) = pv - nx" using R by simp
    ultimately show ?thesis using False assms(2) by simp
  qed
qed

lemma chan_close:
  fixes mx mn c rangec :: rat
  assumes gap: "1 / 256 \<le> mx - mn" and c: "mn \<le> c" "c \<le> mx" and r: "0 \<le> mn" "mx \<le> 1"
    and rangec: "\<bar>rangec - (mx - mn)\<bar> \<le> 1 / 1000000000"
  shows "\<bar>fl (fsub mx c / rangec) - (mx - c) / (mx - mn)\<bar> \<le> 515 / 1000000000"
    and "0 \<le> (mx - c) / (mx - mn)" and "(mx - c) / (mx - mn) \<le> 1"
proof -
  define Q where "Q = (mx - c) / (mx - mn)"
  have x: "0 \<le> mx - c" "mx - c \<le> mx - mn" using c by linarith+
  have R: "0 < mx - mn" using gap by linarith
  show q: "0 \<le> (mx - c) / (mx - mn)" "(mx - c) / (mx - mn) \<le> 1"
    using x R by (simp_all add: divide_le_eq_1)
  have "\<bar>mx - c\<bar> \<le> 1000" using c r by linarith
  from fl_close[OF this] have xf: "\<bar>fsub mx c - (mx - c)\<bar> \<le> 1 / 1000000000"
    unfolding fsub_def .
  have "\<bar>fsub mx c / rangec - Q\<bar> \<le> 514 * (1 / 1000000000)"
    unfolding Q_def by (rule div_close[OF xf rangec x gap]) simp
  then have d: "\<bar>fsub mx c / rangec - Q\<bar> \<le> 514 / 1000000000" by linarith
  have qa: "\<bar>Q\<bar> \<le> 10" using q unfolding Q_def by linarith
  have "\<bar>fl (fsub mx c / rangec) - Q\<bar> \<le> 514 / 1000000000 + 1 / 1000000000"
    by (rule fl_close_of[OF d qa]) simp
  then show "\<bar>fl (fsub mx c / rangec) - (mx - c) / (mx - mn)\<bar> \<le> 515 / 1000000000"
    unfolding Q_def by linarith
qed

lemma sixth_close:
  fixes x t :: rat
  assumes "\<bar>x - t\<bar> \<le> 1032 / 1000000000" "\<bar>t\<bar> \<le> 10"
  shows "\<bar>fl (x / 6) - t / 6\<bar> \<le> 173 / 1000000000"
proof -
  have a: "\<bar>x / 6 - t / 6\<bar> \<le> 172 / 1000000000" using assms(1) by linarith
  have b: "\<bar>t / 6\<bar> \<le> 10" using assms(2) by linarith
  have "\<bar>fl (x / 6) - t / 6\<bar> \<le> 172 / 1000000000 + 1 / 1000000000"
    by (rule fl_close_of[OF a b]) simp
  then show ?thesis by linarith
qed

lemma hue0_close:
  fixes a a' b b' :: rat
  assumes a: "\<bar>a - a'\<bar> \<le> 515 / 1000000000" and b: "\<bar>b - b'\<bar> \<le> 515 / 1000000000"
    and r: "0 \<le> a'" "a' \<le> 1" "0 \<le> b'" "b' \<le> 1"
  shows "\<bar>fl (fsub a b / 6) - (a' - b') / 6\<bar> \<le> 173 / 1000000000"
    and "\<bar>fl (fsub (fadd 2 a) b / 6) - ((a' - b') / 6 + 1 / 3)\<bar> \<le> 173 / 1000000000"
    and "\<bar>fl (fsub (fadd 4 a) b / 6) - ((a' - b') / 6 + 2 / 3)\<bar> \<le> 173 / 1000000000"
proof -
  have "\<bar>a - b\<bar> \<le> 1000" using a b r by linarith
  from fl_close[OF this] a b
  have 1: "\<bar>fsub a b - (a' - b')\<bar> \<le> 1032 / 1000000000" unfolding fsub_def by linarith
  have t1: "\<bar>a' - b'\<bar> \<le> 10" using r by linarith
  show "\<bar>fl (fsub a b / 6) - (a' - b') / 6\<bar> \<le> 173 / 1000000000"
    by (rule sixth_close[OF 1 t1])
  have "\<bar>2 + a\<bar> \<le> 1000" using a r by linarith
  from fl_close[OF this] a
  have f2: "\<bar>fadd 2 a - (2 + a')\<bar> \<le> 516 / 1000000000" unfolding fadd_def by linarith
  have "\<bar>fadd 2 a - b\<bar> \<le> 1000" using f2 b r by linarith
  from fl_close[OF this] f2 b
  have 2: "\<bar>fsub (fadd 2 a) b - (a' - b' + 2)\<bar> \<le> 1032 / 1000000000"
    unfolding fsub_def by linarith
  have t2: "\<bar>a' - b' + 2\<bar> \<le> 10" using r by linarith
  have "\<bar>fl (fsub (fadd 2 a) b / 6) - (a' - b' + 2) / 6\<bar> \<le> 173 / 1000000000"
    by (rule sixth_close[OF 2 t2])
  moreover have "(a' - b' + 2) / 6 = (a' - b') / 6 + 1 / 3" by (simp add: add_divide_distrib)
  ultimately show "\<bar>fl (fsub (fadd 2 a) b / 6) - ((a' - b') / 6 + 1 / 3)\<bar>
      \<le> 173 / 1000000000" by (simp only:)
  have "\<bar>4 + a\<bar> \<le> 1000" using a r by linarith
  from fl_close[OF this] a
  have f4: "\<bar>fadd 4 a - (4 + a')\<bar> \<le> 516 / 1000000000" unfolding fadd_def by linarith
  have "\<bar>fadd 4 a - b\<bar> \<le> 1000" using f4 b r by linarith
  from fl_close[OF this] f4 b
  have 4: "\<bar>fsub (fadd 4 a) b - (a' - b' + 4)\<bar> \<le> 1032 / 1000000000"
    unfolding fsub_def by linarith
  have t4: "\<bar>a' - b' + 4\<bar> \<le> 10" using r by linarith
  have "\<bar>fl (fsub (fadd 4 a) b / 6) - (a' - b' + 4) / 6\<bar> \<le> 173 / 1000000000"
    by (rule sixth_close[OF 4 t4])
  moreover have "(a' - b' + 4) / 6 = (a' - b') / 6 + 2 / 3" by (simp add: add_divide_distrib)
  ultimately show "\<bar>fl (fsub (fadd 4 a) b / 6) - ((a' - b') / 6 + 2 / 3)\<bar>
      \<le> 173 / 1000000000" by (simp only:)
qed

lemma shift_eq:
  fixes a b b' d :: rat and j :: int
  assumes "\<exists>K::int. \<bar>a - b - of_int K\<bar> \<le> d" "b = b' + of_int j"
  shows "\<exists>K::int. \<bar>a - b' - of_int K\<bar> \<le> d"
proof -
  from assms(1) obtain K :: int where K: "\<bar>a - b - of_int K\<bar> \<le> d" by blast
  have "a - b' - of_int (K + j) = a - b - of_int K" unfolding assms(2) by simp
  with K have "\<bar>a - b' - of_int (K + j)\<bar> \<le> d" by simp
  then show ?thesis by blast
qed

lemma triple_close:
  fixes mx mn nx pv m1 m2 y :: rat
  assumes m: "\<bar>m1 - mn\<bar> \<le> 3 / 1000000" "\<bar>m2 - mx\<bar> \<le> 3 / 1000000"
    and r: "0 \<le> mn" "mn \<le> mx" "mx \<le> 1"
    and lt: "mn < mx" and mn: "mn = min nx pv" and le: "nx \<le> mx" "pv \<le> mx"
  defines "q \<equiv> (nx - pv) / (mx - mn)"
  defines "h \<equiv> fmod1 y"
  shows "\<bar>y - q / 6\<bar> \<le> 173 / 1000000000 \<Longrightarrow>
           \<bar>v_hls m1 m2 (fadd h ONE_THIRD) - mx\<bar> \<le> 2 / 100000
         \<and> \<bar>v_hls m1 m2 h - nx\<bar> \<le> 2 / 100000
         \<and> \<bar>v_hls m1 m2 (fsub h ONE_THIRD) - pv\<bar> \<le> 2 / 100000"
    and "\<bar>y - (q / 6 + 1 / 3)\<bar> \<le> 173 / 1000000000 \<Longrightarrow>
           \<bar>v_hls m1 m2 (fadd h ONE_THIRD) - pv\<bar> \<le> 2 / 100000
         \<and> \<bar>v_hls m1 m2 h - mx\<bar> \<le> 2 / 100000
         \<and> \<bar>v_hls m1 m2 (fsub h ONE_THIRD) - nx\<bar> \<le> 2 / 100000"
    and "\<bar>y - (q / 6 + 2 / 3)\<bar> \<le> 173 / 1000000000 \<Longrightarrow>
           \<bar>v_hls m1 m2 (fadd h ONE_THIRD) - nx\<bar> \<le> 2 / 100000
         \<and> \<bar>v_hls m1 m2 h - pv\<bar> \<le> 2 / 100000
         \<and> \<bar>v_hls m1 m2 (fsub h ONE_THIRD) - mx\<bar> \<le> 2 / 100000"
proof -
  have R: "0 < mx - mn" using lt by simp
  have d: "mn - mx \<le> nx - pv" "nx - pv \<le> mx - mn" using mn le by linarith+
  have q: "- 1 \<le> q" "q \<le> 1"
  proof -
    have "- 1 * (mx - mn) \<le> nx - pv" using d by (simp add: algebra_simps)
    then show "- 1 \<le> q" unfolding q_def using R by (simp only: pos_le_divide_eq)
    have "nx - pv \<le> 1 * (mx - mn)" using d by simp
    then show "q \<le> 1" unfolding q_def using R by (simp only: pos_divide_le_eq)
  qed
  have en: "mn + (mx - mn) * max 0 q = nx" and ep: "mn + (mx - mn) * max 0 (- q) = pv"
    unfolding q_def using exact_next[OF lt mn] by simp_all
  have vx: "\<bar>v_hls m1 m2 hue0 - mx\<bar> \<le> 2 / 100000"
    if "\<exists>K::int. \<bar>fmod1 hue0 - (q / 6 + 1 / 3) - of_int K\<bar> \<le> 2 / 10000000" for hue0
  proof -
    have "1 / 6 \<le> q / 6 + 1 / 3" "q / 6 + 1 / 3 \<le> 1 / 2" using q by linarith+
    from v_max[OF m r that this] show ?thesis .
  qed
  have vn: "\<bar>v_hls m1 m2 hue0 - nx\<bar> \<le> 2 / 100000"
    if "\<exists>K::int. \<bar>fmod1 hue0 - q / 6 - of_int K\<bar> \<le> 2 / 10000000" for hue0
    using v_next[OF m r that q] unfolding en .
  have vp: "\<bar>v_hls m1 m2 hue0 - pv\<bar> \<le> 2 / 100000"
    if "\<exists>K::int. \<bar>fmod1 hue0 - (q / 6 + 2 / 3) - of_int K\<bar> \<le> 2 / 10000000" for hue0
    using v_prev[OF m r that q] unfolding ep .
  {
    assume y: "\<bar>y - q / 6\<bar> \<le> 173 / 1000000000"
    have p: "- (1 / 6) \<le> q / 6" "q / 6 \<le> 5 / 6" using q by linarith+
    note hs = hue_shift[OF y p, folded h_def]
    have 1: "\<bar>v_hls m1 m2 (fadd h ONE_THIRD) - mx\<bar> \<le> 2 / 100000" by (rule vx[OF hs(1)])
    have 2: "\<bar>v_hls m1 m2 h - nx\<bar> \<le> 2 / 100000" by (rule vn[OF hs(2)])
    have "q / 6 - 1 / 3 = (q / 6 + 2 / 3) + of_int (- 1)" by simp
    from shift_eq[OF hs(3) this]
    have 3: "\<bar>v_hls m1 m2 (fsub h ONE_THIRD) - pv\<bar> \<le> 2 / 100000" by (rule vp)
    from 1 2 3 show "\<bar>v_hls m1 m2 (fadd h ONE_THIRD) - mx\<bar> \<le> 2 / 100000
         \<and> \<bar>v_hls m1 m2 h - nx\<bar> \<le> 2 / 100000
         \<and> \<bar>v_hls m1 m2 (fsub h ONE_THIRD) - pv\<bar> \<le> 2 / 100000" by (intro conjI)
  }
  {
    assume y: "\<bar>y - (q / 6 + 1 / 3)\<bar> \<le> 173 / 1000000000"
    have p: "- (1 / 6) \<le> q / 6 + 1 / 3" "q / 6 + 1 / 3 \<le> 5 / 6" using q by linarith+
    note hs = hue_shift[OF y p, folded h_def]
    have "q / 6 + 1 / 3 + 1 / 3 = (q / 6 + 2 / 3) + of_int 0" by simp
    from shift_eq[OF hs(1) this]
    have 1: "\<bar>v_hls m1 m2 (fadd h ONE_THIRD) - pv\<bar> \<le> 2 / 100000" by (rule vp)
    have 2: "\<bar>v_hls m1 m2 h - mx\<bar> \<le> 2 / 100000" by (rule vx[OF hs(2)])
    have "q / 6 + 1 / 3 - 1 / 3 = q / 6 + of_int 0" by simp
    from shift_eq[OF hs(3) this]
    have 3: "\<bar>v_hls m1 m2 (fsub h ONE_THIRD) - nx\<bar> \<le> 2 / 100000" by (rule vn)
    from 1 2 3 show "\<bar>v_hls m1 m2 (fadd h ONE_THIRD) - pv\<bar> \<le> 2 / 100000
         \<and> \<bar>v_hls m1 m2 h - mx\<bar> \<le> 2 / 100000
         \<and> \<bar>v_hls m1 m2 (fsub h ONE_THIRD) - nx\<bar> \<le> 2 / 100000" by (intro conjI)
  }
  {
    assume y: "\<bar>y - (q / 6 + 2 / 3)\<bar> \<le> 173 / 1000000000"
    have p: "- (1 / 6) \<le> q / 6 + 2 / 3" "q / 6 + 2 / 3 \<le> 5 / 6" using q by linarith+
    note hs = hue_shift[OF y p, folded h_def]
    have "q / 6 + 2 / 3 + 1 / 3 = q / 6 + of_int 1" by simp
    from shift_eq[OF hs(1) this]
    have 1: "\<bar>v_hls m1 m2 (fadd h ONE_THIRD) - nx\<bar> \<le> 2 / 100000" by (rule vn)
    have 2: "\<bar>v_hls m1 m2 h - pv\<bar> \<le> 2 / 100000" by (rule vp[OF hs(2)])
    have "q / 6 + 2 / 3 - 1 / 3 = (q / 6 + 1 / 3) + of_int 0" by simp
    from shift_eq[OF hs(3) this]
    have 3: "\<bar>v_hls m1 m2 (fsub h ONE_THIRD) - mx\<bar> \<le> 2 / 100000" by (rule vx)
    from 1 2 3 show "\<bar>v_hls m1 m2 (fadd h ONE_THIRD) - nx\<bar> \<le> 2 / 100000
         \<and> \<bar>v_hls m1 m2 h - pv\<bar> \<le> 2 / 100000
         \<and> \<bar>v_hls m1 m2 (fsub h ONE_THIRD) - mx\<bar> \<le> 2 / 100000" by (intro conjI)
  }
qed

subsubsection \<open>\<open>hls_to_rgb\<close> after \<open>rgb_to_hls\<close>\<close>

lemma hls_to_rgb_grey: "hls_to_rgb h l 0 = (l, l, l)"
  by (simp add: hls_to_rgb_def)

lemma hls_to_rgb_colour:
  assumes "s \<noteq> 0"
  shows "hls_to_rgb h l s =
     (let m2 = (if l \<le> 1/2 then fmul l (fadd 1 s) else fsub (fadd l s) (fmul l s));
          m1 = fsub (fmul 2 l) m2
      in (v_hls m1 m2 (fadd h ONE_THIRD), v_hls m1 m2 h, v_hls m1 m2 (fsub h ONE_THIRD)))"
  using assms by (simp add: hls_to_rgb_def)

lemma q_diff:
  fixes mx mn u v :: rat
  shows "(mx - u) / (mx - mn) - (mx - v) / (mx - mn) = (v - u) / (mx - mn)"
  by (simp add: diff_divide_distrib[symmetric])

lemma round_trip_close:
  fixes r g b :: rat
  assumes u: "0 \<le> r" "r \<le> 1" "0 \<le> g" "g \<le> 1" "0 \<le> b" "b \<le> 1"
    and gap: "max (max r g) b = min (min r g) b
              \<or> 1 / 256 \<le> max (max r g) b - min (min r g) b"
  shows "\<exists>h l s r' g' b'. rgb_to_hls r g b = Inr (h, l, s) \<and> hls_to_rgb h l s = (r', g', b')
           \<and> \<bar>r' - r\<bar> \<le> 2 / 100000 \<and> \<bar>g' - g\<bar> \<le> 2 / 100000 \<and> \<bar>b' - b\<bar> \<le> 2 / 100000"
proof -
  define maxc where "maxc = max (max r g) b"
  define minc where "minc = min (min r g) b"
  define sumc where "sumc = fadd maxc minc"
  define rangec where "rangec = fsub maxc minc"
  define l where "l = fl (sumc / 2)"
  have mm: "0 \<le> minc" "minc \<le> maxc" "maxc \<le> 1"
    using u by (auto simp: maxc_def minc_def)
  have between: "minc \<le> r" "r \<le> maxc" "minc \<le> g" "g \<le> maxc" "minc \<le> b" "b \<le> maxc"
    by (auto simp: maxc_def minc_def)
  have "\<bar>maxc + minc\<bar> \<le> 1000" using mm by linarith
  from fl_close[OF this] have sumc: "\<bar>sumc - (maxc + minc)\<bar> \<le> 1 / 1000000000"
    unfolding sumc_def fadd_def .
  have "\<bar>maxc - minc\<bar> \<le> 1000" using mm by linarith
  from fl_close[OF this] have rangec: "\<bar>rangec - (maxc - minc)\<bar> \<le> 1 / 1000000000"
    unfolding rangec_def fsub_def .
  define L where "L = (maxc + minc) / 2"
  have L2: "2 * L = maxc + minc" by (simp add: L_def)
  have "\<bar>sumc / 2\<bar> \<le> 1000" using sumc mm by linarith
  from fl_close[OF this] sumc L2 have lL: "\<bar>l - L\<bar> \<le> 2 / 1000000000"
    unfolding l_def by linarith
  then have l: "\<bar>l - (maxc + minc) / 2\<bar> \<le> 2 / 1000000000" unfolding L_def .
  show ?thesis
  proof (cases "minc = maxc")
    case True
    then have hls: "rgb_to_hls r g b = Inr (0, l, 0)"
      by (simp add: rgb_to_hls_def Let_def maxc_def minc_def l_def sumc_def)
    have eq: "r = maxc" "g = maxc" "b = maxc" using between True by linarith+
    have "\<bar>l - maxc\<bar> \<le> 2 / 100000" using lL L2 True by linarith
    with hls hls_to_rgb_grey[of 0 l] eq show ?thesis by simp
  next
    case False
    with gap have gap': "1 / 256 \<le> maxc - minc" by (simp add: maxc_def minc_def)
    then have lt: "minc < maxc" by linarith
    define den where "den = fsub (fsub 2 maxc) minc"
    define s where "s = (if l \<le> 1/2 then fl (rangec / sumc) else fl (rangec / den))"
    define m2 where "m2 = (if l \<le> 1/2 then fmul l (fadd 1 s) else fsub (fadd l s) (fmul l s))"
    define m1 where "m1 = fsub (fmul 2 l) m2"
    have rpos: "0 < rangec" using rangec gap' by linarith
    have spos: "0 < sumc" using sumc gap' mm by linarith
    have dpos: "0 < den"
      using m2_high(1)[OF mm(1) mm(3) gap' l rangec] unfolding den_def by linarith
    have s_pos: "0 < s" unfolding s_def using rpos spos dpos by (simp add: fl_pos)
    have m2c: "\<bar>m2 - maxc\<bar> \<le> 2067 / 1000000000"
    proof (cases "l \<le> 1/2")
      case True
      then have "m2 = fmul l (fadd 1 (fl (rangec / sumc)))" by (simp add: m2_def s_def)
      with m2_low(2)[OF mm(1) mm(3) gap' l sumc rangec] show ?thesis by linarith
    next
      case False
      then have "m2 = fsub (fadd l (fl (rangec / den))) (fmul l (fl (rangec / den)))"
        by (simp add: m2_def s_def)
      with m2_high(3)[OF mm(1) mm(3) gap' l rangec] show ?thesis unfolding den_def by linarith
    qed
    then have m2': "\<bar>m2 - maxc\<bar> \<le> 3 / 1000000" by linarith
    have m1': "\<bar>m1 - minc\<bar> \<le> 3 / 1000000"
      unfolding m1_def by (rule m1_close[OF mm(1) mm(3) mm(2) l m2c])
    define rc where "rc = fl (fsub maxc r / rangec)"
    define gc where "gc = fl (fsub maxc g / rangec)"
    define bc where "bc = fl (fsub maxc b / rangec)"
    note cr = chan_close[OF gap' between(1,2) mm(1) mm(3) rangec, folded rc_def]
    note cg = chan_close[OF gap' between(3,4) mm(1) mm(3) rangec, folded gc_def]
    note cb = chan_close[OF gap' between(5,6) mm(1) mm(3) rangec, folded bc_def]
    define h0 where "h0 = (if r = maxc then fsub bc gc
                        else if g = maxc then fsub (fadd 2 rc) bc
                        else fsub (fadd 4 gc) rc)"
    define h where "h = fmod1 (fl (h0 / 6))"
    have sdiv: "(if l \<le> 1/2 then fdiv rangec sumc else fdiv rangec den) = Inr s"
      using spos dpos by (simp add: fdiv_def s_def)
    have rne: "rangec \<noteq> 0" using rpos by simp
    have ch: "fdiv y rangec = Inr (fl (y / rangec))" for y
      using rne by (simp add: fdiv_def)
    have hls: "rgb_to_hls r g b = Inr (h, l, s)"
      unfolding h_def h0_def rc_def gc_def bc_def
      unfolding rgb_to_hls_def Let_def maxc_def[symmetric] minc_def[symmetric]
      unfolding sumc_def[symmetric] rangec_def[symmetric]
      unfolding l_def[symmetric] den_def[symmetric] sdiv ch
      using False by simp
    have rgb: "hls_to_rgb h l s
        = (v_hls m1 m2 (fadd h ONE_THIRD), v_hls m1 m2 h, v_hls m1 m2 (fsub h ONE_THIRD))"
      using s_pos by (simp add: hls_to_rgb_colour Let_def m2_def m1_def)
    have close: "\<bar>v_hls m1 m2 (fadd h ONE_THIRD) - r\<bar> \<le> 2 / 100000
         \<and> \<bar>v_hls m1 m2 h - g\<bar> \<le> 2 / 100000
         \<and> \<bar>v_hls m1 m2 (fsub h ONE_THIRD) - b\<bar> \<le> 2 / 100000"
    proof (cases "r = maxc")
      case True
      then have h0: "h0 = fsub bc gc" by (simp add: h0_def)
      have mn: "minc = min g b" using True between by (simp add: minc_def min_def)
      have "\<bar>fl (fsub bc gc / 6) - ((maxc - b) / (maxc - minc) - (maxc - g) / (maxc - minc)) / 6\<bar>
              \<le> 173 / 1000000000"
        by (rule hue0_close(1)[OF cb(1) cg(1) cb(2,3) cg(2,3)])
      then have y: "\<bar>fl (h0 / 6) - (g - b) / (maxc - minc) / 6\<bar> \<le> 173 / 1000000000"
        unfolding h0 q_diff .
      from triple_close(1)[OF m1' m2' mm lt mn between(4,6) y, folded h_def]
      show ?thesis unfolding True .
    next
      case F1: False
      show ?thesis
      proof (cases "g = maxc")
        case True
        with F1 have h0: "h0 = fsub (fadd 2 rc) bc" by (simp add: h0_def)
        have mn: "minc = min b r" using True between by (simp add: minc_def min_def)
        have "\<bar>fl (fsub (fadd 2 rc) bc / 6)
              - (((maxc - r) / (maxc - minc) - (maxc - b) / (maxc - minc)) / 6 + 1 / 3)\<bar>
              \<le> 173 / 1000000000"
          by (rule hue0_close(2)[OF cr(1) cb(1) cr(2,3) cb(2,3)])
        then have y: "\<bar>fl (h0 / 6) - ((b - r) / (maxc - minc) / 6 + 1 / 3)\<bar>
              \<le> 173 / 1000000000"
          unfolding h0 q_diff .
        from triple_close(2)[OF m1' m2' mm lt mn between(6,2) y, folded h_def]
        show ?thesis unfolding True by simp
      next
        case F2: False
        with F1 have b: "b = maxc" by (auto simp: maxc_def max_def split: if_splits)
        from F1 F2 have h0: "h0 = fsub (fadd 4 gc) rc" by (simp add: h0_def)
        have mn: "minc = min r g" using b between by (simp add: minc_def min_def)
        have "\<bar>fl (fsub (fadd 4 gc) rc / 6)
              - (((maxc - g) / (maxc - minc) - (maxc - r) / (maxc - minc)) / 6 + 2 / 3)\<bar>
              \<le> 173 / 1000000000"
          by (rule hue0_close(3)[OF cg(1) cr(1) cg(2,3) cr(2,3)])
        then have y: "\<bar>fl (h0 / 6) - ((r - g) / (maxc - minc) / 6 + 2 / 3)\<bar>
              \<le> 173 / 1000000000"
          unfolding h0 q_diff .
        from triple_close(3)[OF m1' m2' mm lt mn between(2,4) y, folded h_def]
        show ?thesis unfolding b by simp
      qed
    qed
    from hls rgb close show ?thesis by simp
  qed
qed

subsubsection \<open>Bytes and strings\<close>

lemma hex_to_hsl_channels:
  "hex_to_hsl x =
     (case channel x 0 of Inl e \<Rightarrow> Inl e | Inr ri \<Rightarrow>
     (case channel x 2 of Inl e \<Rightarrow> Inl e | Inr gi \<Rightarrow>
     (case channel x 4 of Inl e \<Rightarrow> Inl e | Inr bi \<Rightarrow>
        rgb_to_hls (fl (rat_of_int ri / 255)) (fl (rat_of_int gi / 255))
                   (fl (rat_of_int bi / 255)))))"
  unfolding hex_to_hsl_def channel_def Let_def ..

lemma grid_pair:
  fixes j k :: int
  assumes "0 \<le> j" "j \<le> 255" "0 \<le> k" "k \<le> 255"
  shows "fl (rat_of_int j / 255) = fl (rat_of_int k / 255)
         \<or> 1 / 256 \<le> \<bar>fl (rat_of_int j / 255) - fl (rat_of_int k / 255)\<bar>"
proof (cases "j = k")
  case True
  then show ?thesis by simp
next
  case False
  have b: "0 \<le> rat_of_int j" "rat_of_int j \<le> 255" "0 \<le> rat_of_int k" "rat_of_int k \<le> 255"
    using assms by simp_all
  then have "\<bar>rat_of_int j / 255\<bar> \<le> 1000" "\<bar>rat_of_int k / 255\<bar> \<le> 1000" by linarith+
  note e = fl_close[OF this(1)] fl_close[OF this(2)]
  from False consider "j + 1 \<le> k" | "k + 1 \<le> j" by linarith
  then have "rat_of_int j + 1 \<le> rat_of_int k \<or> rat_of_int k + 1 \<le> rat_of_int j"
  proof cases
    case 1
    then have "rat_of_int (j + 1) \<le> rat_of_int k" by (simp only: of_int_le_iff)
    then show ?thesis by simp
  next
    case 2
    then have "rat_of_int (k + 1) \<le> rat_of_int j" by (simp only: of_int_le_iff)
    then show ?thesis by simp
  qed
  then have "1 / 256 \<le> \<bar>fl (rat_of_int j / 255) - fl (rat_of_int k / 255)\<bar>"
    using e by linarith
  then show ?thesis ..
qed

lemma grid_gap:
  fixes r g b :: rat
  assumes "r = g \<or> 1 / 256 \<le> \<bar>r - g\<bar>" "r = b \<or> 1 / 256 \<le> \<bar>r - b\<bar>"
    "g = b \<or> 1 / 256 \<le> \<bar>g - b\<bar>"
  shows "max (max r g) b = min (min r g) b
         \<or> 1 / 256 \<le> max (max r g) b - min (min r g) b"
proof (cases "r = g \<and> r = b")
  case True
  then show ?thesis by simp
next
  case False
  then consider "r \<noteq> g" | "r \<noteq> b" by blast
  then have "1 / 256 \<le> max (max r g) b - min (min r g) b"
  proof cases
    case 1
    with assms(1) have "1 / 256 \<le> \<bar>r - g\<bar>" by simp
    then show ?thesis by linarith
  next
    case 2
    with assms(2) have "1 / 256 \<le> \<bar>r - b\<bar>" by simp
    then show ?thesis by linarith
  qed
  then show ?thesis ..
qed

lemma byte_close:
  fixes k :: int and v :: rat
  assumes k: "0 \<le> k" "k \<le> 255" and v: "\<bar>v - fl (rat_of_int k / 255)\<bar> \<le> 2 / 100000"
  shows "0 \<le> py_trunc (fmul v 255)" "k - 1 \<le> py_trunc (fmul v 255)"
    "py_trunc (fmul v 255) \<le> k"
proof -
  define K where "K = rat_of_int k"
  define w where "w = fmul v 255"
  have b: "0 \<le> K" "K \<le> 255" unfolding K_def using k by simp_all
  then have "\<bar>K / 255\<bar> \<le> 1000" by linarith
  from fl_close[OF this] v have vk: "\<bar>v * 255 - K\<bar> \<le> 6 / 1000" unfolding K_def by linarith
  then have "\<bar>v * 255\<bar> \<le> 1000" using b by linarith
  from fl_close[OF this] vk have w: "\<bar>w - K\<bar> \<le> 7 / 1000" unfolding w_def fmul_def by linarith
  have "w < K + 1" "K - 1 \<le> w" using w by linarith+
  then have up: "w < rat_of_int (k + 1)" and lo: "rat_of_int (k - 1) \<le> w"
    unfolding K_def by simp_all
  show "0 \<le> py_trunc (fmul v 255)" "k - 1 \<le> py_trunc (fmul v 255)"
    "py_trunc (fmul v 255) \<le> k"
  proof -
    have "0 \<le> py_trunc w \<and> k - 1 \<le> py_trunc w \<and> py_trunc w \<le> k"
    proof (cases "0 \<le> w")
      case True
      then have t: "py_trunc w = \<lfloor>w\<rfloor>" by (simp add: py_trunc_def)
      have "\<lfloor>w\<rfloor> < k + 1" using up by (simp only: floor_less_iff)
      moreover have "k - 1 \<le> \<lfloor>w\<rfloor>" using lo by (simp only: le_floor_iff)
      moreover have "0 \<le> \<lfloor>w\<rfloor>" using True by simp
      ultimately show ?thesis unfolding t by simp
    next
      case False
      then have t: "py_trunc w = \<lceil>w\<rceil>" by (simp add: py_trunc_def)
      have "K < 1" using False w by linarith
      then have "rat_of_int k < rat_of_int 1" unfolding K_def by simp
      then have "k < 1" by (simp only: of_int_less_iff)
      with k have k0: "k = 0" by simp
      have "- 1 < w" "w \<le> 0" using False w b by linarith+
      then have "\<lceil>w\<rceil> = 0" by (intro ceiling_unique) simp_all
      then show ?thesis unfolding t k0 by simp
    qed
    then show "0 \<le> py_trunc (fmul v 255)" "k - 1 \<le> py_trunc (fmul v 255)"
      "py_trunc (fmul v 255) \<le> k" unfolding w_def by simp_all
  qed
qed

lemma py_int16_format_02x:
  assumes "0 \<le> n" "n \<le> 255"
  shows "py_int16 (format_02x n) = Inr n"
    and "\<exists>a b. format_02x n = [a, b] \<and> a \<noteq> CHR ''#''"
proof -
  have d: "nat n div 16 < 16" "nat n mod 16 < 16" using assms by simp_all
  have f: "format_02x n = [hex_char (nat n div 16), hex_char (nat n mod 16)]"
    by (rule format_02x_byte[OF assms])
  note hv = hex_value_hex_char[OF d(1)] hex_value_hex_char[OF d(2)]
  have "py_int16 (format_02x n) = Inr (int (16 * (nat n div 16) + nat n mod 16))"
    unfolding f by (rule py_int16_two_digits[OF hv])
  also have "16 * (nat n div 16) + nat n mod 16 = nat n" by simp
  also have "int (nat n) = n" using assms by simp
  finally show "py_int16 (format_02x n) = Inr n" .
  have "hex_char (nat n div 16) \<noteq> CHR ''#''" by (rule hex_value_SomeD(5)[OF hv(1)])
  with f show "\<exists>a b. format_02x n = [a, b] \<and> a \<noteq> CHR ''#''" by simp
qed

lemma channel_of_bytes:
  assumes "0 \<le> R" "R \<le> 255" "0 \<le> G" "G \<le> 255" "0 \<le> B" "B \<le> 255"
  defines "x \<equiv> CHR ''#'' # format_02x R @ format_02x G @ format_02x B"
  shows "channel x 0 = Inr R" "channel x 2 = Inr G" "channel x 4 = Inr B"
proof -
  from py_int16_format_02x(2)[OF assms(1,2)] obtain a b
    where R: "format_02x R = [a, b]" "a \<noteq> CHR ''#''" by blast
  from py_int16_format_02x(2)[OF assms(3,4)] obtain c d
    where G: "format_02x G = [c, d]" by blast
  from py_int16_format_02x(2)[OF assms(5,6)] obtain e f
    where B: "format_02x B = [e, f]" by blast
  have l: "lstrip_hash x = [a, b, c, d, e, f]"
    unfolding x_def R(1) G B lstrip_hash_def using R(2) by simp
  have s: "slice2 (lstrip_hash x) 0 = format_02x R" "slice2 (lstrip_hash x) 2 = format_02x G"
    "slice2 (lstrip_hash x) 4 = format_02x B"
    unfolding l R(1) G B by (simp_all add: slice2_def)
  show "channel x 0 = Inr R" "channel x 2 = Inr G" "channel x 4 = Inr B"
    unfolding channel_def s
    by (rule py_int16_format_02x(1)[OF assms(1,2)] py_int16_format_02x(1)[OF assms(3,4)]
          py_int16_format_02x(1)[OF assms(5,6)])+
qed

lemma byte_value:
  assumes "hex_value a = Some va" "hex_value b = Some vb"
  shows "0 \<le> int (16 * va + vb)" "int (16 * va + vb) \<le> 255"
  using hex_value_SomeD(1)[OF assms(1)] hex_value_SomeD(1)[OF assms(2)] by simp_all


lemma hsl_336699:
  "hex_to_hsl ''#336699'' = Inr (5254199565265579 / 9007199254740992,
     3602879701896397 / 9007199254740992, 9007199254740991 / 18014398509481984)"
  by (simp add: hex_to_hsl_def str_eval col_eval fl_eval cong: let_weak_cong)

lemma hex_326599:
  "hsl_to_hex (5254199565265579 / 9007199254740992) (3602879701896397 / 9007199254740992)
     (9007199254740991 / 18014398509481984) = ''#326599''"
  by (simp add: hex_eval col_eval fl_eval cong: let_weak_cong)

lemma channels_336699:
  "channel ''#336699'' 0 = Inr 51" "channel ''#336699'' 2 = Inr 102"
  "channel ''#336699'' 4 = Inr 153"
  by (simp_all add: channel_def str_eval)

lemma channels_326599:
  "channel ''#326599'' 0 = Inr 50" "channel ''#326599'' 2 = Inr 101"
  "channel ''#326599'' 4 = Inr 153"
  by (simp_all add: channel_def str_eval)


text \<open>
  Claim C6. For every well-formed colour \<open>x\<close>, \<open>hex_to_hsl x\<close> returns a triple, and the
  string that \<open>hsl_to_hex\<close> makes of this triple is a colour again whose red, green and
  blue channels, read as \<open>hex_to_hsl\<close> reads them, each differ by at most 1 from the
  channel of \<open>x\<close>.
\<close>

theorem round_trip_within_one:
  assumes "well_formed_hex x"
  shows "\<exists>h l s r g b r' g' b'.
      hex_to_hsl x = Inr (h, l, s)
    \<and> channel x 0 = Inr r \<and> channel x 2 = Inr g \<and> channel x 4 = Inr b
    \<and> channel (hsl_to_hex h l s) 0 = Inr r'
    \<and> channel (hsl_to_hex h l s) 2 = Inr g'
    \<and> channel (hsl_to_hex h l s) 4 = Inr b'
    \<and> \<bar>r' - r\<bar> \<le> 1 \<and> \<bar>g' - g\<bar> \<le> 1 \<and> \<bar>b' - b\<bar> \<le> 1"
proof -
  from well_formed_lstrip[OF assms]
  have len: "length (lstrip_hash x) = 6" and dig: "list_all is_hex_digit (lstrip_hash x)"
    by simp_all
  from six_digits[OF len dig] obtain a b c d e f
    where t: "lstrip_hash x = [a, b, c, d, e, f]"
      and hd: "is_hex_digit a" "is_hex_digit b" "is_hex_digit c"
              "is_hex_digit d" "is_hex_digit e" "is_hex_digit f" by blast
  from is_hex_digitD[OF hd(1)] obtain va where va: "hex_value a = Some va" by blast
  from is_hex_digitD[OF hd(2)] obtain vb where vb: "hex_value b = Some vb" by blast
  from is_hex_digitD[OF hd(3)] obtain vc where vc: "hex_value c = Some vc" by blast
  from is_hex_digitD[OF hd(4)] obtain vd where vd: "hex_value d = Some vd" by blast
  from is_hex_digitD[OF hd(5)] obtain ve where ve: "hex_value e = Some ve" by blast
  from is_hex_digitD[OF hd(6)] obtain vf where vf: "hex_value f = Some vf" by blast
  define ri where "ri = int (16 * va + vb)"
  define gi where "gi = int (16 * vc + vd)"
  define bi where "bi = int (16 * ve + vf)"
  note br = byte_value[OF va vb, folded ri_def]
  note bg = byte_value[OF vc vd, folded gi_def]
  note bb = byte_value[OF ve vf, folded bi_def]
  have t6: "take 6 (lstrip_hash x) = [a, b, c, d, e, f]" unfolding t by simp
  have hsl: "hex_to_hsl x = rgb_to_hls (fl (rat_of_int ri / 255)) (fl (rat_of_int gi / 255))
                                       (fl (rat_of_int bi / 255))"
    unfolding ri_def gi_def bi_def by (rule hex_to_hsl_six_digits[OF t6 va vb vc vd ve vf])
  have sl: "slice2 (lstrip_hash x) 0 = [a, b]" "slice2 (lstrip_hash x) 2 = [c, d]"
    "slice2 (lstrip_hash x) 4 = [e, f]" unfolding t by (simp_all add: slice2_def)
  have ch: "channel x 0 = Inr ri" "channel x 2 = Inr gi" "channel x 4 = Inr bi"
    unfolding channel_def sl ri_def gi_def bi_def
    by (rule py_int16_two_digits[OF va vb] py_int16_two_digits[OF vc vd]
          py_int16_two_digits[OF ve vf])+
  define R where "R = fl (rat_of_int ri / 255)"
  define G where "G = fl (rat_of_int gi / 255)"
  define B where "B = fl (rat_of_int bi / 255)"
  have u: "0 \<le> R" "R \<le> 1" "0 \<le> G" "G \<le> 1" "0 \<le> B" "B \<le> 1"
    unfolding R_def G_def B_def ri_def gi_def bi_def
    using channel_unit hex_value_SomeD(1) va vb vc vd ve vf by blast+
  have gap: "max (max R G) B = min (min R G) B
             \<or> 1 / 256 \<le> max (max R G) B - min (min R G) B"
    unfolding R_def G_def B_def
    by (rule grid_gap[OF grid_pair[OF br bg] grid_pair[OF br bb] grid_pair[OF bg bb]])
  from round_trip_close[OF u gap] obtain h l s r' g' b'
    where hls: "rgb_to_hls R G B = Inr (h, l, s)" and rgb: "hls_to_rgb h l s = (r', g', b')"
      and cl: "\<bar>r' - R\<bar> \<le> 2 / 100000" "\<bar>g' - G\<bar> \<le> 2 / 100000" "\<bar>b' - B\<bar> \<le> 2 / 100000"
    by blast
  define R' where "R' = py_trunc (fmul r' 255)"
  define G' where "G' = py_trunc (fmul g' 255)"
  define B' where "B' = py_trunc (fmul b' 255)"
  note cr = byte_close[OF br cl(1)[unfolded R_def], folded R'_def]
  note cg = byte_close[OF bg cl(2)[unfolded G_def], folded G'_def]
  note cb = byte_close[OF bb cl(3)[unfolded B_def], folded B'_def]
  have hex: "hsl_to_hex h l s = CHR ''#'' # format_02x R' @ format_02x G' @ format_02x B'"
    unfolding hsl_to_hex_def rgb R'_def G'_def B'_def by simp
  have hi: "R' \<le> 255" "G' \<le> 255" "B' \<le> 255" using cr(3) cg(3) cb(3) br bg bb by linarith+
  note ch' = channel_of_bytes[OF cr(1) hi(1) cg(1) hi(2) cb(1) hi(3), folded hex]
  have d: "\<bar>R' - ri\<bar> \<le> 1" "\<bar>G' - gi\<bar> \<le> 1" "\<bar>B' - bi\<bar> \<le> 1"
    using cr cg cb by linarith+
  have "hex_to_hsl x = Inr (h, l, s)" unfolding hsl using hls unfolding R_def G_def B_def .
  with ch ch' d show ?thesis by blast
qed

text \<open>The colour \<open>#336699\<close> comes back as \<open>#326599\<close>: red and green are one unit
  lower, blue is the same.\<close>

theorem round_trip_within_one_witness:
  "well_formed_hex ''#336699''
   \<and> (\<exists>h l s. hex_to_hsl ''#336699'' = Inr (h, l, s) \<and> hsl_to_hex h l s = ''#326599'')
   \<and> channel ''#336699'' 0 = Inr 51 \<and> channel ''#326599'' 0 = Inr 50
   \<and> channel ''#336699'' 2 = Inr 102 \<and> channel ''#326599'' 2 = Inr 101
   \<and> channel ''#336699'' 4 = Inr 153 \<and> channel ''#326599'' 4 = Inr 153
   \<and> \<bar>50 - 51 :: int\<bar> \<le> 1 \<and> \<bar>101 - 102 :: int\<bar> \<le> 1 \<and> \<bar>153 - 153 :: int\<bar> \<le> 1"
proof -
  from round_trip_within_one[OF well_formed_336699]
  obtain h l s r g b r' g' b' where hls: "hex_to_hsl ''#336699'' = Inr (h, l, s)"
    and c: "channel ''#336699'' 0 = Inr r" "channel ''#336699'' 2 = Inr g"
      "channel ''#336699'' 4 = Inr b"
    and c': "channel (hsl_to_hex h l s) 0 = Inr r'" "channel (hsl_to_hex h l s) 2 = Inr g'"
      "channel (hsl_to_hex h l s) 4 = Inr b'"
    and d: "\<bar>r' - r\<bar> \<le> 1" "\<bar>g' - g\<bar> \<le> 1" "\<bar>b' - b\<bar> \<le> 1"
    by (elim exE conjE)
  from hls have e: "h = 5254199565265579 / 9007199254740992"
    "l = 3602879701896397 / 9007199254740992" "s = 9007199254740991 / 18014398509481984"
    unfolding hsl_336699 by simp_all
  have x: "hsl_to_hex h l s = ''#326599''" unfolding e by (rule hex_326599)
  from c have v: "r = 51" "g = 102" "b = 153" unfolding channels_336699 by simp_all
  from c' have v': "r' = 50" "g' = 101" "b' = 153" unfolding x channels_326599 by simp_all
  from hls x have 1: "\<exists>h l s. hex_to_hsl ''#336699'' = Inr (h, l, s)
      \<and> hsl_to_hex h l s = ''#326599''" by blast
  note d' = d[unfolded v v']
  show ?thesis
    by (intro conjI well_formed_336699 1 channels_336699 channels_326599 d')
qed

end
